theory Spec2Isabelle
  imports Complex_Main "HOL-Library.AList" "HOL-Library.Multiset"
begin

section \<open>The extension's background script: \<open>scanURL\<close> and its \<open>scanCache\<close>\<close>

text \<open>
  The object the scan endpoint answers with, and the safe object \<open>scanURL\<close> builds
  when the request fails. The field \<open>url\<close> is optional: the React service worker's
  safe object has none.
\<close>

record scan_result =
  url :: "string option"
  is_phishing :: bool
  confidence :: real
  threat_level :: string
  risk_factors :: "string list"

text \<open>A value of \<open>scanCache\<close>: \<open>{ result, timestamp }\<close>, the time in milliseconds.\<close>

record cached =
  result :: scan_result
  timestamp :: int

text \<open>
  \<open>scanCache\<close> is a JavaScript \<open>Map\<close>: keys are unique and iteration follows insertion
  order. It is an association list in that order; \<open>set\<close> on a present key replaces the
  value where it stands, on an absent key appends.
\<close>

type_synonym scan_cache = "(string \<times> cached) list"

definition Map_has :: "scan_cache \<Rightarrow> string \<Rightarrow> bool" where
  "Map_has scanCache cacheKey = (map_of scanCache cacheKey \<noteq> None)"

definition Map_get :: "scan_cache \<Rightarrow> string \<Rightarrow> cached option" where
  "Map_get scanCache cacheKey = map_of scanCache cacheKey"

definition Map_set :: "string \<Rightarrow> cached \<Rightarrow> scan_cache \<Rightarrow> scan_cache" where
  "Map_set cacheKey v scanCache = AList.update cacheKey v scanCache"

definition Map_delete :: "string \<Rightarrow> scan_cache \<Rightarrow> scan_cache" where
  "Map_delete cacheKey scanCache = AList.delete cacheKey scanCache"

definition Map_size :: "scan_cache \<Rightarrow> nat" where
  "Map_size scanCache = length scanCache"

subsection \<open>\<open>hashURL\<close>\<close>

text \<open>
  A URL is a \<open>string\<close>; \<open>charCodeAt\<close> is \<open>of_char\<close>, which covers the code units below
  256 and so every ASCII URL the browser reports.
  \<open>ToInt32\<close>: the value modulo \<open>2^32\<close>, read as two's complement. Both \<open>hash << 5\<close>
  and \<open>hash & hash\<close> convert their operands with it.
\<close>

definition toInt32 :: "int \<Rightarrow> int" where
  "toInt32 x = (x + 2147483648) mod 4294967296 - 2147483648"

definition hash_step :: "int \<Rightarrow> char \<Rightarrow> int" where
  "hash_step hash c =
     (let h = (toInt32 (toInt32 hash * 32) - hash) + int (of_char c)
      in toInt32 h)"

definition digit36 :: "nat \<Rightarrow> char" where
  "digit36 d = ''0123456789abcdefghijklmnopqrstuvwxyz'' ! d"

fun digits36 :: "nat \<Rightarrow> string" where
  "digits36 n =
     (if n < 36 then [digit36 n] else digits36 (n div 36) @ [digit36 (n mod 36)])"

declare digits36.simps [simp del]

text \<open>\<open>Number.prototype.toString(36)\<close> on an integer.\<close>

definition toString36 :: "int \<Rightarrow> string" where
  "toString36 i = (if i < 0 then CHR ''-'' # digits36 (nat (- i)) else digits36 (nat i))"

definition hashURL :: "string \<Rightarrow> string" where
  "hashURL u = toString36 (foldl hash_step 0 u)"

subsection \<open>\<open>scanURL\<close>\<close>

text \<open>
  What \<open>await fetch(...)\<close> and \<open>await response.json()\<close> give: the promise rejects, or
  a response arrives with its \<open>ok\<close> flag, its status and the parsed body (\<open>None\<close> when
  parsing throws).
\<close>

datatype fetch_outcome = FetchRejected | FetchResponse bool nat "scan_result option"

datatype js_error = FetchFailed | HttpError nat | JsonError | ScanFailed

text \<open>Lines 103 to 109: the cached result, if the key is present and younger than 5 minutes.\<close>

definition cache_lookup :: "scan_cache \<Rightarrow> string \<Rightarrow> int \<Rightarrow> scan_result option" where
  "cache_lookup scanCache cacheKey now =
     (if Map_has scanCache cacheKey then
        (case Map_get scanCache cacheKey of
           Some c \<Rightarrow> if now - timestamp c < 300000 then Some (result c) else None
         | None \<Rightarrow> None)
      else None)"

text \<open>
  Lines 135 to 142: once the map holds more than 1000 entries, the entries are sorted by
  timestamp (the sort is stable) and the keys of the first 500 are deleted.
\<close>

definition clear_old :: "scan_cache \<Rightarrow> scan_cache" where
  "clear_old scanCache =
     (if Map_size scanCache > 1000 then
        (let entries = sort_key (\<lambda>e. timestamp (snd e)) scanCache
         in fold (\<lambda>i c. Map_delete (fst (entries ! i)) c) [0..<500] scanCache)
      else scanCache)"

text \<open>Lines 129 to 142: store the result under the key, then clear old entries.\<close>

definition cache_store :: "string \<Rightarrow> scan_result \<Rightarrow> int \<Rightarrow> scan_cache \<Rightarrow> scan_cache" where
  "cache_store cacheKey res now scanCache =
     clear_old (Map_set cacheKey \<lparr>result = res, timestamp = now\<rparr> scanCache)"

text \<open>
  The body of the \<open>try\<close> block, lines 112 to 144. It either throws (\<open>Inl\<close>) and leaves the
  map as it was, or returns the fetched result with the map updated.
\<close>

definition scanURL_try ::
  "string \<Rightarrow> int \<Rightarrow> fetch_outcome \<Rightarrow> scan_cache \<Rightarrow> (js_error + scan_result) \<times> scan_cache" where
  "scanURL_try cacheKey now response scanCache =
     (case response of
        FetchRejected \<Rightarrow> (Inl FetchFailed, scanCache)
      | FetchResponse ok status body \<Rightarrow>
          if \<not> ok then (Inl (HttpError status), scanCache)
          else (case body of
                  None \<Rightarrow> (Inl JsonError, scanCache)
                | Some res \<Rightarrow> (Inr res, cache_store cacheKey res now scanCache)))"

text \<open>The object of the \<open>catch\<close> block, lines 149 to 155.\<close>

definition safe_result :: "string \<Rightarrow> scan_result" where
  "safe_result u =
     \<lparr>url = Some u, is_phishing = False, confidence = 0,
      threat_level = ''Unknown'', risk_factors = []\<rparr>"

text \<open>\<open>try { body } catch (error) { handler }\<close> over outcomes with the state threaded.\<close>

definition try_catch ::
  "('e + 'a) \<times> 's \<Rightarrow> ('e \<Rightarrow> 's \<Rightarrow> ('e + 'a) \<times> 's) \<Rightarrow> ('e + 'a) \<times> 's" where
  "try_catch body handler =
     (case fst body of Inl e \<Rightarrow> handler e (snd body) | Inr v \<Rightarrow> body)"

text \<open>
  \<open>scanURL\<close>. \<open>now1\<close> is \<open>Date.now()\<close> at the freshness test, \<open>now2\<close> at the store, after
  the awaits; \<open>response\<close> is what the backend round trip gives, read only on a miss.
  The value is the outcome for the caller (\<open>Inl\<close>: the promise rejects) and the map
  afterwards.
\<close>

definition scanURL ::
  "string \<Rightarrow> int \<Rightarrow> int \<Rightarrow> fetch_outcome \<Rightarrow> scan_cache \<Rightarrow> (js_error + scan_result) \<times> scan_cache" where
  "scanURL u now1 now2 response scanCache =
     (let cacheKey = hashURL u in
      case cache_lookup scanCache cacheKey now1 of
        Some res \<Rightarrow> (Inr res, scanCache)
      | None \<Rightarrow>
          try_catch (scanURL_try cacheKey now2 response scanCache)
            (\<lambda>error c. (Inr (safe_result u), c)))"

text \<open>The backend request throws or answers with a status that is not ok.\<close>

fun request_failed :: "fetch_outcome \<Rightarrow> bool" where
  "request_failed FetchRejected = True"
| "request_failed (FetchResponse ok status body) = (\<not> ok)"

text \<open>
  A run of \<open>scanURL\<close> calls, one after the other, from a given map: each request is the
  URL, the two clock readings and what the backend gives.
\<close>

fun scan_run :: "(string \<times> int \<times> int \<times> fetch_outcome) list \<Rightarrow> scan_cache \<Rightarrow> scan_cache" where
  "scan_run [] scanCache = scanCache"
| "scan_run ((u, now1, now2, response) # reqs) scanCache =
     scan_run reqs (snd (scanURL u now1 now2 response scanCache))"

text \<open>
  The \<open>onBeforeNavigate\<close> listener, lines 54 to 70: what it does with a scan result under
  the user's settings.
\<close>

record user_settings =
  blockPhishing :: bool
  showWarnings :: bool

datatype nav_action = OpenWarningPage | ShowNotification | NoAction

definition onBeforeNavigate_action :: "user_settings \<Rightarrow> scan_result \<Rightarrow> nav_action" where
  "onBeforeNavigate_action userSettings scanResult =
     (if is_phishing scanResult \<and> blockPhishing userSettings then OpenWarningPage
      else if is_phishing scanResult \<and> showWarnings userSettings then ShowNotification
      else NoAction)"

subsection \<open>A concrete run that fills the map\<close>

text \<open>
  Distinct URLs \<open>http://h/aaa\<close>, \<open>http://h/aab\<close>, ..., scanned one per millisecond from
  the empty map, each answered by the backend with the same benign result.
\<close>

definition demo_url :: "nat \<Rightarrow> string" where
  "demo_url i =
     ''http://h/'' @ [char_of (97 + i div 676), char_of (97 + (i div 26) mod 26),
                      char_of (97 + i mod 26)]"

definition demo_result :: scan_result where
  "demo_result =
     \<lparr>url = None, is_phishing = False, confidence = 0,
      threat_level = ''Low'', risk_factors = []\<rparr>"

definition demo_response :: fetch_outcome where
  "demo_response = FetchResponse True 200 (Some demo_result)"

fun demo_fill :: "nat \<Rightarrow> scan_cache" where
  "demo_fill 0 = []"
| "demo_fill (Suc n) =
     snd (scanURL (demo_url n) (int n) (int n) demo_response (demo_fill n))"

definition demo_entry :: "nat \<Rightarrow> string \<times> cached" where
  "demo_entry i = (hashURL (demo_url i), \<lparr>result = demo_result, timestamp = int i\<rparr>)"

text \<open>
  After 1000 scans: a scan of the first URL at time 1000 (a hit), then a scan of a new
  URL at time 1001.
\<close>

definition demo_after :: scan_cache where
  "demo_after =
     snd (scanURL (demo_url 1000) 1001 1001 demo_response
            (snd (scanURL (demo_url 0) 1000 1000 FetchRejected (demo_fill 1000))))"

section \<open>The React extension's service worker\<close>

text \<open>
  \<open>scanUrl\<close>: no cache; the \<open>try\<close> block throws on a rejected fetch, on a response that
  is not ok and on a body that does not parse, and the \<open>catch\<close> block returns the safe
  object.
\<close>

definition scanUrl_try :: "fetch_outcome \<Rightarrow> js_error + scan_result" where
  "scanUrl_try response =
     (case response of
        FetchRejected \<Rightarrow> Inl FetchFailed
      | FetchResponse ok status body \<Rightarrow>
          if \<not> ok then Inl ScanFailed
          else (case body of None \<Rightarrow> Inl JsonError | Some res \<Rightarrow> Inr res))"

definition safe_default :: scan_result where
  "safe_default =
     \<lparr>url = None, is_phishing = False, confidence = 0,
      threat_level = ''Unknown'', risk_factors = []\<rparr>"

definition scanUrl :: "string \<Rightarrow> fetch_outcome \<Rightarrow> js_error + scan_result" where
  "scanUrl u response =
     (case scanUrl_try response of Inl error \<Rightarrow> Inr safe_default | Inr res \<Rightarrow> Inr res)"

text \<open>The \<open>onCommitted\<close> listener's reaction to the result, the same chain of tests.\<close>

definition onCommitted_action :: "user_settings \<Rightarrow> scan_result \<Rightarrow> nav_action" where
  "onCommitted_action settings res =
     (if is_phishing res \<and> blockPhishing settings then OpenWarningPage
      else if is_phishing res \<and> showWarnings settings then ShowNotification
      else NoAction)"

subsection \<open>Recent scans\<close>

text \<open>An entry of the stored \<open>recentScans\<close> list; the timestamp is the instant in milliseconds.\<close>

record recent_scan =
  scan_url :: string
  scan_is_phishing :: bool
  scan_threat_level :: string
  scan_confidence :: real
  scan_timestamp :: int

definition newScan :: "string \<Rightarrow> scan_result \<Rightarrow> int \<Rightarrow> recent_scan" where
  "newScan u res now =
     \<lparr>scan_url = u, scan_is_phishing = is_phishing res, scan_threat_level = threat_level res,
      scan_confidence = confidence res, scan_timestamp = now\<rparr>"

text \<open>
  The listener: the stored list (empty when storage has none) gets the new scan by
  \<open>unshift\<close>, and \<open>slice(0, 10)\<close> of it is stored.
\<close>

definition onCommitted_recentScans ::
  "string \<Rightarrow> scan_result \<Rightarrow> int \<Rightarrow> recent_scan list option \<Rightarrow> recent_scan list" where
  "onCommitted_recentScans u res now stored =
     (let recentScans = (case stored of None \<Rightarrow> [] | Some l \<Rightarrow> l);
          unshifted = newScan u res now # recentScans
      in take 10 unshifted)"

text \<open>The popup's \<open>handleScan\<close>: \<open>[newScan, ...recentScans].slice(0, 10)\<close>.\<close>

definition handleScan_recentScans ::
  "string \<Rightarrow> scan_result \<Rightarrow> int \<Rightarrow> recent_scan list \<Rightarrow> recent_scan list" where
  "handleScan_recentScans u res now recentScans =
     take 10 ([newScan u res now] @ recentScans)"

text \<open>
  The dashboard's \<open>addToRecentScans\<close>: its entries are the result with a timestamp; the
  list is cut only when longer than 10.
\<close>

definition addToRecentScans ::
  "scan_result \<Rightarrow> int \<Rightarrow> (scan_result \<times> int) list \<Rightarrow> (scan_result \<times> int) list" where
  "addToRecentScans res now recentScans =
     (let unshifted = (res, now) # recentScans
      in if length unshifted > 10 then take 10 unshifted else unshifted)"

text \<open>Newest first: timestamps do not increase along the list.\<close>

definition newest_first :: "('a \<Rightarrow> int) \<Rightarrow> 'a list \<Rightarrow> bool" where
  "newest_first ts xs = sorted_wrt (\<lambda>a b. ts b \<le> ts a) xs"

subsection \<open>Daily statistics\<close>

record stats =
  scansToday :: int
  threatsBlocked :: int
  lastScan :: "int option"

text \<open>
  \<open>toDateString\<close> prints the local calendar day of an instant; two instants print the
  same string exactly when they fall on the same local day. It is modelled by the number
  of that day, \<open>tz t\<close> being the local offset from UTC in force at instant \<open>t\<close>, both in
  milliseconds.
\<close>

definition toDateString :: "(int \<Rightarrow> int) \<Rightarrow> int \<Rightarrow> int" where
  "toDateString tz t = (t + tz t) div 86400000"

text \<open>
  The counters are JavaScript numbers that hold integers, and \<open>x++\<close> stores \<open>x + 1\<close> as
  a double: the exact sum rounded to 53 significant bits, a tie going to the even
  significand. \<open>toDouble\<close> is that rounding on the integers (below the overflow to
  infinity, near \<open>2^1024\<close>); \<open>bit_length\<close> is the number of binary digits.
\<close>

fun bit_length :: "nat \<Rightarrow> nat" where
  "bit_length n = (if n = 0 then 0 else Suc (bit_length (n div 2)))"

declare bit_length.simps [simp del]

definition toDouble :: "int \<Rightarrow> int" where
  "toDouble m =
     (let a = nat \<bar>m\<bar> in
      if a \<le> 9007199254740992 then m
      else
        (let e = bit_length a - 53;
             q = a div 2 ^ e;
             r = a mod 2 ^ e;
             q' = (if 2 ^ e < 2 * r \<or> (2 * r = 2 ^ e \<and> odd q) then q + 1 else q)
         in sgn m * int (q' * 2 ^ e)))"

definition js_increment :: "int \<Rightarrow> int" where
  "js_increment x = toDouble (x + 1)"

text \<open>
  \<open>updateStats\<close>: \<open>stored\<close> is what storage holds under \<open>stats\<close>, \<open>now1\<close> the clock when
  \<open>today\<close> is computed, \<open>now2\<close> when \<open>lastScan\<close> is written.
\<close>

definition updateStats :: "(int \<Rightarrow> int) \<Rightarrow> int \<Rightarrow> int \<Rightarrow> scan_result \<Rightarrow> stats option \<Rightarrow> stats" where
  "updateStats tz now1 now2 res stored =
     (let currentStats =
            (case stored of
               Some s \<Rightarrow> s
             | None \<Rightarrow> \<lparr>scansToday = 0, threatsBlocked = 0, lastScan = None\<rparr>);
          today = toDateString tz now1;
          lastScanDate =
            (case lastScan currentStats of
               Some t \<Rightarrow> Some (toDateString tz t)
             | None \<Rightarrow> None);
          s1 = (if lastScanDate \<noteq> Some today then currentStats\<lparr>scansToday := 0\<rparr>
                else currentStats);
          s2 = s1\<lparr>scansToday := js_increment (scansToday s1)\<rparr>;
          s3 = (if is_phishing res then s2\<lparr>threatsBlocked := js_increment (threatsBlocked s2)\<rparr>
                else s2)
      in s3\<lparr>lastScan := Some now2\<rparr>)"

text \<open>A time zone whose offset from UTC is always 0.\<close>

definition utc_zone :: "int \<Rightarrow> int" where
  "utc_zone t = 0"

section \<open>The connection pool and the batch processor of the specification\<close>

text \<open>
  The pool and the batch processor belong to the Python backend, whose files are not
  among the sources; only the guides under \<open>docs/\<close> describe them. The definitions of
  this section follow the specification's sections 3, 4.4 and 4.5.
\<close>

subsection \<open>ConnectionPool\<close>

text \<open>
  Modelled from the spec: the state of the \<open>Pool\<close> of section 3, whose implementation
  (\<open>database_pool.py\<close>) is missing. \<open>coreConnections\<close> is fixed, \<open>overflowConnections\<close>
  bounds the elastic part; \<open>created\<close> counts the core connections made so far (they
  are made lazily), \<open>idle\<close> those of them in state \<open>Idle\<close>, \<open>overflow\<close> the live overflow
  connections and \<open>checkedOut\<close> the connections owned by callers.
\<close>

record pool =
  coreConnections :: nat
  overflowConnections :: nat
  created :: nat
  idle :: nat
  overflow :: nat
  checkedOut :: nat

text \<open>Modelled from the spec: a pool at construction, no connection made yet.\<close>

definition new_pool :: "nat \<Rightarrow> nat \<Rightarrow> pool" where
  "new_pool core over =
     \<lparr>coreConnections = core, overflowConnections = over, created = 0, idle = 0,
      overflow = 0, checkedOut = 0\<rparr>"

text \<open>
  Modelled from the spec: the resolution order of \<open>acquire\<close> (section 4.4) without the
  wait: an idle core connection if one exists; else a core connection not yet made
  (section 3, lazy creation); else a new overflow connection while the bound is not
  reached; else nothing is available now.
\<close>

definition try_acquire :: "pool \<Rightarrow> pool option" where
  "try_acquire p =
     (if 0 < idle p then Some (p\<lparr>idle := idle p - 1, checkedOut := checkedOut p + 1\<rparr>)
      else if created p < coreConnections p
        then Some (p\<lparr>created := created p + 1, checkedOut := checkedOut p + 1\<rparr>)
      else if overflow p < overflowConnections p
        then Some (p\<lparr>overflow := overflow p + 1, checkedOut := checkedOut p + 1\<rparr>)
      else None)"

text \<open>Modelled from the spec: what \<open>acquire\<close> returns, \<open>Connection | PoolExhausted\<close>.\<close>

datatype acquire_result = Connection | PoolExhausted

text \<open>
  Modelled from the spec: \<open>acquire(timeout)\<close> of section 4.4. \<open>next_release\<close> is the time
  after which another caller releases a connection, \<open>None\<close> when none does. The value
  is the result, the time the call took and the pool afterwards. A connection
  released within the timeout goes to the waiting caller, so the counts stand; at the
  timeout the call reports \<open>PoolExhausted\<close> once and leaves the pool as it found it.
\<close>

definition acquire :: "nat \<Rightarrow> nat option \<Rightarrow> pool \<Rightarrow> (acquire_result \<times> nat) \<times> pool" where
  "acquire timeout next_release p =
     (case try_acquire p of
        Some p' \<Rightarrow> ((Connection, 0), p')
      | None \<Rightarrow>
          (case next_release of
             Some d \<Rightarrow>
               if d < timeout then ((Connection, d), p) else ((PoolExhausted, timeout), p)
           | None \<Rightarrow> ((PoolExhausted, timeout), p)))"

subsection \<open>BatchProcessor\<close>

text \<open>
  Modelled from the spec: the \<open>BatchBuffer\<close> of section 3 with the record of what was
  flushed, whose implementation (\<open>BatchProcessor\<close> in \<open>database_pool.py\<close>) is missing.
  \<open>items\<close> is the active buffer, \<open>flushed\<close> the buffers swapped out for writing, oldest
  first.
\<close>

record 'r batch_processor =
  items :: "'r list"
  sizeThreshold :: nat
  flushed :: "'r list list"

text \<open>
  Modelled from the spec: a flush (section 4.5) swaps the active buffer out whole and
  leaves a fresh, empty one.
\<close>

definition flush :: "'r batch_processor \<Rightarrow> 'r batch_processor" where
  "flush bp = bp\<lparr>items := [], flushed := flushed bp @ [items bp]\<rparr>"

text \<open>
  Modelled from the spec: \<open>add(record)\<close> (section 4.5) appends to the active buffer and,
  if the buffer's size reaches \<open>sizeThreshold\<close>, triggers a flush before it returns.
\<close>

definition add :: "'r \<Rightarrow> 'r batch_processor \<Rightarrow> 'r batch_processor" where
  "add record bp =
     (let bp' = bp\<lparr>items := items bp @ [record]\<rparr>
      in if sizeThreshold bp' \<le> length (items bp') then flush bp' else bp')"

text \<open>Modelled from the spec: records added one after the other.\<close>

fun add_all :: "'r list \<Rightarrow> 'r batch_processor \<Rightarrow> 'r batch_processor" where
  "add_all [] bp = bp"
| "add_all (r # rs) bp = add_all rs (add r bp)"

text \<open>Modelled from the spec: a processor at construction.\<close>

definition new_batch_processor :: "nat \<Rightarrow> 'r batch_processor" where
  "new_batch_processor n = \<lparr>items = [], sizeThreshold = n, flushed = []\<rparr>"

section \<open>Properties of the scan cache\<close>

subsection \<open>Size and key uniqueness\<close>

lemma length_Map_set:
  "length (Map_set k v c) = (if k \<in> fst ` set c then length c else Suc (length c))"
  unfolding Map_set_def by (induction c) auto

lemma distinct_Map_set:
  "distinct (map fst c) \<Longrightarrow> distinct (map fst (Map_set k v c))"
  unfolding Map_set_def by (rule distinct_update)

lemma fold_Map_delete:
  "fold Map_delete ks c = filter (\<lambda>p. fst p \<notin> set ks) c"
proof (induction ks arbitrary: c)
  case Nil
  then show ?case by simp
next
  case (Cons k ks)
  have "Map_delete k c = filter (\<lambda>p. fst p \<noteq> k) c"
    by (auto simp: Map_delete_def AList.delete_eq intro: filter_cong)
  then show ?case using Cons by (auto intro: filter_cong)
qed

lemma first_keys:
  "n \<le> length es \<Longrightarrow> map (\<lambda>i. fst (es ! i)) [0..<n] = map fst (take n es)"
  by (auto intro!: nth_equalityI)

lemma clear_old_filter:
  assumes "1000 < length c"
  shows "clear_old c =
    filter (\<lambda>p. fst p \<notin> fst ` set (take 500 (sort_key (\<lambda>e. timestamp (snd e)) c))) c"
proof -
  let ?es = "sort_key (\<lambda>e. timestamp (snd e)) c"
  have "fold (\<lambda>i. Map_delete (fst (?es ! i))) [0..<500] c
        = fold Map_delete (map (\<lambda>i. fst (?es ! i)) [0..<500]) c"
    by (simp add: fold_map comp_def)
  also have "map (\<lambda>i. fst (?es ! i)) [0..<500] = map fst (take 500 ?es)"
    using assms by (intro first_keys) simp
  finally show ?thesis
    using assms by (simp add: clear_old_def Map_size_def Let_def fold_Map_delete)
qed

lemma clear_old_small: "length c \<le> 1000 \<Longrightarrow> clear_old c = c"
  by (simp add: clear_old_def Map_size_def)

lemma length_clear_old:
  assumes "length c \<le> 1001"
  shows "length (clear_old c) \<le> 1000"
proof (cases "1000 < length c")
  case False
  then show ?thesis by (simp add: clear_old_small)
next
  case True
  let ?es = "sort_key (\<lambda>e. timestamp (snd e)) c"
  have "?es \<noteq> []" using True by (metis length_sort list.size(3) not_less_zero)
  then have "hd ?es \<in> set (take 500 ?es)"
    by (cases ?es) auto
  moreover have "hd ?es \<in> set c"
    using \<open>?es \<noteq> []\<close> by (metis hd_in_set set_sort)
  ultimately have "length (clear_old c) < length c"
    unfolding clear_old_filter [OF True]
    by (intro length_filter_less [of "hd ?es"]) auto
  then show ?thesis using assms by simp
qed

lemma distinct_clear_old:
  "distinct (map fst c) \<Longrightarrow> distinct (map fst (clear_old c))"
  by (cases "1000 < length c") (simp_all add: clear_old_filter clear_old_small distinct_map_filter)

lemma length_cache_store:
  "length c \<le> 1000 \<Longrightarrow> length (cache_store k r t c) \<le> 1000"
  unfolding cache_store_def by (intro length_clear_old) (simp add: length_Map_set)

subsection \<open>Keys and the concrete run\<close>

lemma digit36_inj:
  assumes "a < 36" "b < 36" "digit36 a = digit36 b"
  shows "a = b"
proof -
  have "distinct ''0123456789abcdefghijklmnopqrstuvwxyz''" by simp
  moreover have "length ''0123456789abcdefghijklmnopqrstuvwxyz'' = 36" by simp
  ultimately show ?thesis
    using assms unfolding digit36_def by (metis nth_eq_iff_index_eq)
qed

lemma digit36_not_minus: "d < 36 \<Longrightarrow> digit36 d \<noteq> CHR ''-''"
proof -
  assume "d < 36"
  then have "digit36 d \<in> set ''0123456789abcdefghijklmnopqrstuvwxyz''"
    unfolding digit36_def by (intro nth_mem) simp
  then show ?thesis by auto
qed

lemma digits36_last: "last (digits36 n) = digit36 (n mod 36)"
  by (subst digits36.simps) simp

lemma digits36_butlast:
  "butlast (digits36 n) = (if n < 36 then [] else digits36 (n div 36))"
  by (subst digits36.simps) simp

lemma digits36_nonempty: "digits36 n \<noteq> []"
  by (subst digits36.simps) simp

lemma digits36_hd: "hd (digits36 n) \<noteq> CHR ''-''"
proof (induction n rule: digits36.induct)
  case (1 n)
  show ?case
  proof (cases "n < 36")
    case True
    then show ?thesis by (subst digits36.simps) (simp add: digit36_not_minus)
  next
    case False
    then have "hd (digits36 n) = hd (digits36 (n div 36))"
      by (subst digits36.simps) (simp add: digits36_nonempty)
    then show ?thesis using 1 False by simp
  qed
qed

lemma digits36_inj: "digits36 m = digits36 n \<Longrightarrow> m = n"
proof (induction m arbitrary: n rule: digits36.induct)
  case (1 m)
  from "1.prems" have l: "digit36 (m mod 36) = digit36 (n mod 36)"
    by (metis digits36_last)
  then have lm: "m mod 36 = n mod 36"
    by (intro digit36_inj) simp_all
  from "1.prems" have b: "butlast (digits36 m) = butlast (digits36 n)" by simp
  show ?case
  proof (cases "m < 36")
    case True
    then have "n < 36" using b digits36_nonempty [of "n div 36"]
      by (auto simp: digits36_butlast split: if_splits)
    then show ?thesis using True lm by simp
  next
    case False
    then have n: "\<not> n < 36" using b digits36_nonempty [of "m div 36"]
      by (auto simp: digits36_butlast split: if_splits)
    then have "digits36 (m div 36) = digits36 (n div 36)"
      using b False by (simp add: digits36_butlast)
    then have "m div 36 = n div 36" using "1.IH" False by blast
    then show ?thesis using lm by (metis div_mult_mod_eq)
  qed
qed

lemma toString36_inj: "toString36 x = toString36 y \<Longrightarrow> x = y"
proof -
  assume e: "toString36 x = toString36 y"
  have neg: "hd (toString36 z) = CHR ''-'' \<longleftrightarrow> z < 0" for z
    using digits36_hd [of "nat z"] by (simp add: toString36_def)
  from e have s: "x < 0 \<longleftrightarrow> y < 0" using neg by metis
  show ?thesis
  proof (cases "x < 0")
    case True
    then have "digits36 (nat (- x)) = digits36 (nat (- y))"
      using e s by (simp add: toString36_def)
    then have "nat (- x) = nat (- y)" by (rule digits36_inj)
    then show ?thesis using True s by simp
  next
    case False
    then have "digits36 (nat x) = digits36 (nat y)"
      using e s by (simp add: toString36_def)
    then have "nat x = nat y" by (rule digits36_inj)
    then show ?thesis using False s by simp
  qed
qed

lemma toInt32_mod: "toInt32 x mod 4294967296 = x mod 4294967296"
proof -
  have "((x + 2147483648) mod 4294967296 - 2147483648) mod 4294967296
      = (x + 2147483648 - 2147483648) mod 4294967296"
    by (rule mod_diff_left_eq)
  then show ?thesis by (simp add: toInt32_def)
qed

lemma toInt32_eq_iff: "toInt32 x = toInt32 y \<longleftrightarrow> x mod 4294967296 = y mod 4294967296"
proof
  assume "toInt32 x = toInt32 y"
  then have "toInt32 x mod 4294967296 = toInt32 y mod 4294967296" by simp
  then show "x mod 4294967296 = y mod 4294967296" by (simp only: toInt32_mod)
next
  assume a: "x mod 4294967296 = y mod 4294967296"
  have "(x + 2147483648) mod 4294967296 = (x mod 4294967296 + 2147483648) mod 4294967296"
    by (rule mod_add_left_eq [symmetric])
  also have "\<dots> = (y mod 4294967296 + 2147483648) mod 4294967296" by (simp only: a)
  also have "\<dots> = (y + 2147483648) mod 4294967296" by (rule mod_add_left_eq)
  finally show "toInt32 x = toInt32 y" by (simp only: toInt32_def)
qed

lemma mod_shape:
  fixes a h c m :: int
  assumes "a mod m = b mod m"
  shows "(a - h + c) mod m = (b - h + c) mod m"
proof -
  have "(a - h + c) mod m = (a + (c - h)) mod m" by (simp add: algebra_simps)
  also have "\<dots> = (a mod m + (c - h)) mod m" by (rule mod_add_left_eq [symmetric])
  also have "\<dots> = (b mod m + (c - h)) mod m" by (simp only: assms)
  also have "\<dots> = (b + (c - h)) mod m" by (rule mod_add_left_eq)
  also have "b + (c - h) = b - h + c" by (simp add: algebra_simps)
  finally show ?thesis .
qed

lemma mod_times:
  fixes a b k m :: int
  assumes "a mod m = b mod m"
  shows "(a * k) mod m = (b * k) mod m"
proof -
  have "(a * k) mod m = (a mod m * k) mod m" by (rule mod_mult_left_eq [symmetric])
  also have "\<dots> = (b mod m * k) mod m" by (simp only: assms)
  also have "\<dots> = (b * k) mod m" by (rule mod_mult_left_eq)
  finally show ?thesis .
qed

lemma hash_step_eq: "hash_step h c = toInt32 (31 * h + int (of_char c))"
proof -
  have "(toInt32 h * 32) mod 4294967296 = (h * 32) mod 4294967296"
    by (rule mod_times) (rule toInt32_mod)
  then have "toInt32 (toInt32 h * 32) mod 4294967296 = (h * 32) mod 4294967296"
    by (simp only: toInt32_mod)
  then have "(toInt32 (toInt32 h * 32) - h + int (of_char c)) mod 4294967296
      = (h * 32 - h + int (of_char c)) mod 4294967296"
    by (rule mod_shape)
  moreover have "h * 32 - h + int (of_char c) = 31 * h + int (of_char c)" by simp
  ultimately have "(toInt32 (toInt32 h * 32) - h + int (of_char c)) mod 4294967296
      = (31 * h + int (of_char c)) mod 4294967296"
    by (simp only:)
  then show ?thesis
    unfolding hash_step_def Let_def toInt32_eq_iff .
qed

lemma split31:
  fixes k z :: nat
  assumes "z < 31"
  shows "(31 * k + z) mod 31 = z" "(31 * k + z) div 31 = k"
  using assms by simp_all

lemma digits_unique:
  fixes x y z x' y' z' :: nat
  assumes e: "961 * x + 31 * y + z = 961 * x' + 31 * y' + z'"
    and b: "y < 26" "z < 26" "y' < 26" "z' < 26"
  shows "x = x' \<and> y = y' \<and> z = z'"
proof -
  have e': "31 * (31 * x + y) + z = 31 * (31 * x' + y') + z'"
    using e by simp
  have z: "z < 31" "z' < 31" "y < 31" "y' < 31" using b by simp_all
  have "(31 * (31 * x + y) + z) mod 31 = z" using z(1) by (rule split31(1))
  moreover have "(31 * (31 * x' + y') + z') mod 31 = z'" using z(2) by (rule split31(1))
  ultimately have 1: "z = z'" using e' by simp
  have "(31 * (31 * x + y) + z) div 31 = 31 * x + y" using z(1) by (rule split31(2))
  moreover have "(31 * (31 * x' + y') + z') div 31 = 31 * x' + y'" using z(2) by (rule split31(2))
  ultimately have e2: "31 * x + y = 31 * x' + y'" using e' by simp
  have "(31 * x + y) mod 31 = y" using z(3) by (rule split31(1))
  moreover have "(31 * x' + y') mod 31 = y'" using z(4) by (rule split31(1))
  ultimately have 2: "y = y'" using e2 by simp
  have "(31 * x + y) div 31 = x" using z(3) by (rule split31(2))
  moreover have "(31 * x' + y') div 31 = x'" using z(4) by (rule split31(2))
  ultimately have 3: "x = x'" using e2 by simp
  show ?thesis using 1 2 3 by simp
qed

lemma base26: "(i :: nat) = 676 * (i div 676) + 26 * ((i div 26) mod 26) + i mod 26"
proof -
  have a: "i div 676 = (i div 26) div 26" by (simp add: div_mult2_eq)
  have "26 * ((i div 26) div 26) + (i div 26) mod 26 = i div 26" by simp
  then have b: "676 * ((i div 26) div 26) + 26 * ((i div 26) mod 26) = 26 * (i div 26)"
    by linarith
  have c: "26 * (i div 26) + i mod 26 = i" by simp
  show ?thesis unfolding a using b c by linarith
qed

lemma hash3:
  "foldl hash_step h [a, b, c] mod 4294967296
     = (29791 * h + (961 * int (of_char a) + 31 * int (of_char b) + int (of_char c))) mod 4294967296"
proof -
  have 1: "hash_step h a mod 4294967296 = (31 * h + int (of_char a)) mod 4294967296"
    unfolding hash_step_eq by (rule toInt32_mod)
  have "(hash_step h a * 31) mod 4294967296 = ((31 * h + int (of_char a)) * 31) mod 4294967296"
    using 1 by (rule mod_times)
  then have "(hash_step h a * 31 - 0 + int (of_char b)) mod 4294967296
      = ((31 * h + int (of_char a)) * 31 - 0 + int (of_char b)) mod 4294967296"
    by (rule mod_shape)
  then have 2: "hash_step (hash_step h a) b mod 4294967296
      = ((31 * h + int (of_char a)) * 31 + int (of_char b)) mod 4294967296"
    unfolding hash_step_eq [of "hash_step h a" b] toInt32_mod by (simp add: mult.commute)
  have "(hash_step (hash_step h a) b * 31) mod 4294967296
      = (((31 * h + int (of_char a)) * 31 + int (of_char b)) * 31) mod 4294967296"
    using 2 by (rule mod_times)
  then have "(hash_step (hash_step h a) b * 31 - 0 + int (of_char c)) mod 4294967296
      = (((31 * h + int (of_char a)) * 31 + int (of_char b)) * 31 - 0 + int (of_char c))
          mod 4294967296"
    by (rule mod_shape)
  then have 3: "hash_step (hash_step (hash_step h a) b) c mod 4294967296
      = (((31 * h + int (of_char a)) * 31 + int (of_char b)) * 31 + int (of_char c))
          mod 4294967296"
    unfolding hash_step_eq [of "hash_step (hash_step h a) b" c] toInt32_mod
    by (simp add: mult.commute)
  have e: "((31 * h + int (of_char a)) * 31 + int (of_char b)) * 31 + int (of_char c)
      = 29791 * h + (961 * int (of_char a) + 31 * int (of_char b) + int (of_char c))"
    by (simp add: algebra_simps)
  show ?thesis by (simp only: foldl.simps 3 e)
qed

lemma mod_cancel:
  fixes k u v m :: int
  assumes "(k + u) mod m = (k + v) mod m"
  shows "u mod m = v mod m"
proof -
  have "u mod m = ((k + u) - k) mod m" by simp
  also have "\<dots> = ((k + u) mod m - k) mod m" by (rule mod_diff_left_eq [symmetric])
  also have "\<dots> = ((k + v) mod m - k) mod m" by (simp only: assms)
  also have "\<dots> = ((k + v) - k) mod m" by (rule mod_diff_left_eq)
  also have "\<dots> = v mod m" by simp
  finally show ?thesis .
qed

lemma demo_hash_mod:
  assumes "i \<le> 1000"
  shows "foldl hash_step 0 (demo_url i) mod 4294967296
    = (29791 * foldl hash_step 0 ''http://h/'' + (96321
        + int (961 * (i div 676) + 31 * ((i div 26) mod 26) + i mod 26))) mod 4294967296"
proof -
  have x: "i div 676 \<le> 1" using assms by simp
  have a: "of_char (char_of (97 + i div 676) :: char) = 97 + i div 676"
    using x by (simp add: of_char_of)
  have y: "(i div 26) mod 26 < 26" by simp
  have b: "of_char (char_of (97 + (i div 26) mod 26) :: char) = 97 + (i div 26) mod 26"
    using y by (simp add: of_char_of)
  have z: "i mod 26 < 26" by simp
  have c: "of_char (char_of (97 + i mod 26) :: char) = 97 + i mod 26"
    using z by (simp add: of_char_of)
  have "961 * int (97 + i div 676) + 31 * int (97 + (i div 26) mod 26) + int (97 + i mod 26)
      = 96321 + int (961 * (i div 676) + 31 * ((i div 26) mod 26) + i mod 26)"
    by simp
  then show ?thesis
    unfolding demo_url_def foldl_append hash3 a b c by (simp only:)
qed

lemma demo_key_inj:
  assumes "i \<le> 1000" "j \<le> 1000" "hashURL (demo_url i) = hashURL (demo_url j)"
  shows "i = j"
proof -
  let ?o = "\<lambda>i :: nat. 961 * (i div 676) + 31 * ((i div 26) mod 26) + i mod 26"
  have "foldl hash_step 0 (demo_url i) = foldl hash_step 0 (demo_url j)"
    using assms(3) unfolding hashURL_def by (rule toString36_inj)
  then have "foldl hash_step 0 (demo_url i) mod 4294967296
      = foldl hash_step 0 (demo_url j) mod 4294967296" by simp
  then have "(96321 + int (?o i)) mod 4294967296 = (96321 + int (?o j)) mod 4294967296"
    unfolding demo_hash_mod [OF assms(1)] demo_hash_mod [OF assms(2)] by (rule mod_cancel)
  moreover have bound: "?o k < 2000" if "k \<le> 1000" for k
  proof -
    have "k div 676 \<le> 1" using that by simp
    moreover have "(k div 26) mod 26 < 26" "k mod 26 < 26" by simp_all
    ultimately show ?thesis by linarith
  qed
  ultimately have "?o i = ?o j"
    using bound [OF assms(1)] bound [OF assms(2)] by simp
  then have "i div 676 = j div 676 \<and> (i div 26) mod 26 = (j div 26) mod 26 \<and> i mod 26 = j mod 26"
    by (intro digits_unique) simp_all
  then show ?thesis using base26 [of i] base26 [of j] by simp
qed

lemma demo_key_fresh:
  assumes "n \<le> 1000" "m \<le> n" "k \<le> 1000" "k < m \<or> n \<le> k"
  shows "hashURL (demo_url k) \<notin> fst ` set (map demo_entry [m..<n])"
proof
  assume "hashURL (demo_url k) \<in> fst ` set (map demo_entry [m..<n])"
  then obtain j where j: "m \<le> j" "j < n" "hashURL (demo_url k) = hashURL (demo_url j)"
    by (auto simp: demo_entry_def)
  then have "k = j" using assms by (intro demo_key_inj) simp_all
  then show False using j assms by simp
qed

lemma Map_set_fresh:
  "k \<notin> fst ` set c \<Longrightarrow> Map_set k v c = c @ [(k, v)]"
  unfolding Map_set_def by (induction c) auto

lemma cache_lookup_fresh:
  "k \<notin> fst ` set c \<Longrightarrow> cache_lookup c k now = None"
  by (simp add: cache_lookup_def Map_has_def map_of_eq_None_iff)

lemma scanURL_miss_store:
  assumes "hashURL u \<notin> fst ` set c" "length c < 1000"
  shows "scanURL u now1 now2 (FetchResponse True st (Some r)) c
    = (Inr r, c @ [(hashURL u, \<lparr>result = r, timestamp = now2\<rparr>)])"
proof -
  have "cache_lookup c (hashURL u) now1 = None"
    using assms(1) by (rule cache_lookup_fresh)
  moreover have "cache_store (hashURL u) r now2 c = c @ [(hashURL u, \<lparr>result = r, timestamp = now2\<rparr>)]"
    using assms by (simp add: cache_store_def Map_set_fresh clear_old_small)
  ultimately show ?thesis
    by (simp add: scanURL_def scanURL_try_def try_catch_def)
qed

lemma demo_fill_eq: "n \<le> 1000 \<Longrightarrow> demo_fill n = map demo_entry [0..<n]"
proof (induction n)
  case 0
  then show ?case by simp
next
  case (Suc n)
  then have c: "demo_fill n = map demo_entry [0..<n]" by simp
  have fresh: "hashURL (demo_url n) \<notin> fst ` set (map demo_entry [0..<n])"
    using Suc.prems by (intro demo_key_fresh) simp_all
  have "length (map demo_entry [0..<n]) < 1000"
    using Suc.prems by simp
  from scanURL_miss_store [OF fresh this]
  show ?case
    unfolding demo_fill.simps c demo_response_def by (simp add: demo_entry_def)
qed

lemma scanURL_hit:
  "cache_lookup c (hashURL u) now1 = Some r \<Longrightarrow> scanURL u now1 now2 response c = (Inr r, c)"
  by (simp add: scanURL_def)

lemma scanURL_miss_ok:
  assumes "cache_lookup c (hashURL u) now1 = None"
  shows "scanURL u now1 now2 (FetchResponse True st (Some r)) c
    = (Inr r, cache_store (hashURL u) r now2 c)"
  using assms by (simp add: scanURL_def scanURL_try_def try_catch_def)

lemma demo_lookup_first:
  assumes "0 < n"
  shows "cache_lookup (map demo_entry [0..<n]) (hashURL (demo_url 0)) now
    = (if now < 300000 then Some demo_result else None)"
proof -
  have "[0..<n] = 0 # [Suc 0..<n]" using assms by (simp add: upt_conv_Cons)
  then show ?thesis
    by (simp add: cache_lookup_def Map_has_def Map_get_def demo_entry_def)
qed

lemma demo_sorted:
  "sorted (map (\<lambda>e. timestamp (snd e)) (map demo_entry [0..<n]))"
  by (induction n) (auto simp: sorted_append demo_entry_def)

lemma demo_sorted_snoc:
  assumes "int n \<le> t"
  shows "sorted (map (\<lambda>e. timestamp (snd e))
           (map demo_entry [0..<n] @ [(k, \<lparr>result = r, timestamp = t\<rparr>)]))"
  using assms demo_sorted [of n] by (auto simp: sorted_append demo_entry_def)

lemma demo_filter:
  assumes "m \<le> n" "n \<le> n'" "n' \<le> 1000"
  shows "filter (\<lambda>p. fst p \<notin> fst ` set (map demo_entry [0..<m]))
           (map demo_entry [0..<n] @ [(hashURL (demo_url n'), v)])
         = map demo_entry [m..<n] @ [(hashURL (demo_url n'), v)]"
proof -
  have split: "[0..<n] = [0..<m] @ [m..<n]"
    using assms(1) by (metis le_add_diff_inverse upt_add_eq_append zero_le)
  have a: "filter (\<lambda>p. fst p \<notin> fst ` set (map demo_entry [0..<m])) (map demo_entry [0..<m]) = []"
    by (simp add: filter_empty_conv)
  have b: "filter (\<lambda>p. fst p \<notin> fst ` set (map demo_entry [0..<m])) (map demo_entry [m..<n])
      = map demo_entry [m..<n]"
  proof (rule filter_True, rule ballI)
    fix p assume "p \<in> set (map demo_entry [m..<n])"
    then obtain j where j: "m \<le> j" "j < n" "fst p = hashURL (demo_url j)"
      by (auto simp: demo_entry_def)
    have "hashURL (demo_url j) \<notin> fst ` set (map demo_entry [0..<m])"
      using j assms by (intro demo_key_fresh) simp_all
    then show "fst p \<notin> fst ` set (map demo_entry [0..<m])" using j by simp
  qed
  have c: "hashURL (demo_url n') \<notin> fst ` set (map demo_entry [0..<m])"
    using assms by (intro demo_key_fresh) simp_all
  show ?thesis
    unfolding split map_append filter_append a b using c by simp
qed

lemma demo_clear_old:
  assumes "n = 1000" "n \<le> n'" "n' \<le> 1000" "int n \<le> t"
  shows "clear_old (map demo_entry [0..<n] @ [(hashURL (demo_url n'), \<lparr>result = r, timestamp = t\<rparr>)])
         = map demo_entry [500..<n] @ [(hashURL (demo_url n'), \<lparr>result = r, timestamp = t\<rparr>)]"
proof -
  let ?e = "(hashURL (demo_url n'), \<lparr>result = r, timestamp = t\<rparr>)"
  let ?xs = "map demo_entry [0..<n] @ [?e]"
  have len: "1000 < length ?xs" using assms(1) by simp
  have srt: "sort_key (\<lambda>e. timestamp (snd e)) ?xs = ?xs"
    by (intro sort_key_id_if_sorted demo_sorted_snoc assms)
  have tk: "take 500 ?xs = map demo_entry [0..<500]"
    using assms(1) by (simp add: take_map)
  show ?thesis
    unfolding clear_old_filter [OF len] srt tk
    using assms by (intro demo_filter) simp_all
qed

lemma cache_lookup_snoc_same:
  assumes "k \<notin> fst ` set xs"
  shows "cache_lookup (xs @ [(k, e)]) k now
    = (if now - timestamp e < 300000 then Some (result e) else None)"
proof -
  have "map_of xs k = None" using assms by (simp add: map_of_eq_None_iff)
  then show ?thesis
    by (simp add: cache_lookup_def Map_has_def Map_get_def map_add_def)
qed

lemma demo_after_eq:
  "demo_after = map demo_entry [500..<1000]
     @ [(hashURL (demo_url 1000), \<lparr>result = demo_result, timestamp = 1001\<rparr>)]"
proof -
  have A: "demo_fill 1000 = map demo_entry [0..<1000]"
    by (rule demo_fill_eq) simp
  have B: "scanURL (demo_url 0) 1000 1000 FetchRejected (map demo_entry [0..<1000])
      = (Inr demo_result, map demo_entry [0..<1000])"
    by (rule scanURL_hit) (simp add: demo_lookup_first del: upt_rec_numeral)
  have fresh: "hashURL (demo_url 1000) \<notin> fst ` set (map demo_entry [0..<1000])"
    by (rule demo_key_fresh) simp_all
  have C: "scanURL (demo_url 1000) 1001 1001 demo_response (map demo_entry [0..<1000])
      = (Inr demo_result, cache_store (hashURL (demo_url 1000)) demo_result 1001
           (map demo_entry [0..<1000]))"
    unfolding demo_response_def
    by (rule scanURL_miss_ok) (rule cache_lookup_fresh [OF fresh])
  have D: "cache_store (hashURL (demo_url 1000)) demo_result 1001 (map demo_entry [0..<1000])
      = clear_old (map demo_entry [0..<1000]
          @ [(hashURL (demo_url 1000), \<lparr>result = demo_result, timestamp = 1001\<rparr>)])"
    unfolding cache_store_def Map_set_fresh [OF fresh] ..
  have E: "clear_old (map demo_entry [0..<1000]
          @ [(hashURL (demo_url 1000), \<lparr>result = demo_result, timestamp = 1001\<rparr>)])
      = map demo_entry [500..<1000]
          @ [(hashURL (demo_url 1000), \<lparr>result = demo_result, timestamp = 1001\<rparr>)]"
    by (rule demo_clear_old) simp_all
  show ?thesis
    unfolding demo_after_def A B snd_conv C D E ..
qed

lemma demo_after_facts:
  "length demo_after = 501"
  "cache_lookup demo_after (hashURL (demo_url 0)) 1002 = None"
  "cache_lookup demo_after (hashURL (demo_url 1)) 1002 = None"
  "cache_lookup demo_after (hashURL (demo_url 1000)) 1002 = Some demo_result"
proof -
  let ?e = "(hashURL (demo_url 1000), \<lparr>result = demo_result, timestamp = 1001\<rparr>)"
  show "length demo_after = 501"
    unfolding demo_after_eq by simp
  have f: "hashURL (demo_url k) \<notin> fst ` set (map demo_entry [500..<1000])"
    if "k < 500 \<or> 1000 \<le> k" "k \<le> 1000" for k
    using that by (intro demo_key_fresh) simp_all
  have g: "hashURL (demo_url k) \<notin> fst ` set (map demo_entry [500..<1000] @ [?e])"
    if "k < 500" for k
    using f [of k] demo_key_inj [of k 1000] that by (auto simp del: upt_rec_numeral)
  show "cache_lookup demo_after (hashURL (demo_url 0)) 1002 = None"
    unfolding demo_after_eq by (rule cache_lookup_fresh) (rule g, simp)
  show "cache_lookup demo_after (hashURL (demo_url 1)) 1002 = None"
    unfolding demo_after_eq by (rule cache_lookup_fresh) (rule g, simp)
  show "cache_lookup demo_after (hashURL (demo_url 1000)) 1002 = Some demo_result"
    unfolding demo_after_eq using cache_lookup_snoc_same [OF f [of 1000], of "snd ?e" 1002]
    by (simp del: upt_rec_numeral)
qed

subsection \<open>What the eviction removes\<close>

lemma clear_old_mset:
  assumes "distinct (map fst c)" "1000 < length c"
  shows "mset (clear_old c) = mset (drop 500 (sort_key (\<lambda>e. timestamp (snd e)) c))"
proof -
  let ?es = "sort_key (\<lambda>e. timestamp (snd e)) c"
  let ?P = "\<lambda>p. fst p \<notin> fst ` set (take 500 ?es)"
  have "mset (map fst ?es) = mset (map fst c)" by simp
  then have "distinct (map fst ?es)"
    using assms(1) by (metis mset_eq_imp_distinct_iff)
  then have "distinct (map fst (take 500 ?es @ drop 500 ?es))" by simp
  then have disj: "fst ` set (take 500 ?es) \<inter> fst ` set (drop 500 ?es) = {}"
    unfolding map_append distinct_append by simp
  have a: "filter ?P (take 500 ?es) = []"
    by (simp add: filter_empty_conv)
  have b: "filter ?P (drop 500 ?es) = drop 500 ?es"
    using disj by (intro filter_True) auto
  have "filter ?P ?es = filter ?P (take 500 ?es @ drop 500 ?es)" by simp
  also have "\<dots> = drop 500 ?es" unfolding filter_append a b by simp
  finally have "mset (filter ?P ?es) = mset (drop 500 ?es)" by simp
  moreover have "mset (filter ?P ?es) = mset (filter ?P c)"
    unfolding mset_filter by simp
  ultimately show ?thesis
    unfolding clear_old_filter [OF assms(2)] by simp
qed

lemma sorted_take_drop:
  assumes "sorted (map f es)" "x \<in> set (take n es)" "y \<in> set (drop n es)"
  shows "f x \<le> f y"
proof -
  have "sorted (map f (take n es) @ map f (drop n es))"
    using assms(1) by (metis append_take_drop_id map_append)
  then show ?thesis using assms(2,3) by (auto simp: sorted_append)
qed

lemma clear_old_oldest:
  assumes "distinct (map fst c)" "1000 < length c"
    and "x \<in> set c" "x \<notin> set (clear_old c)" "y \<in> set (clear_old c)"
  shows "timestamp (snd x) \<le> timestamp (snd y)"
proof -
  let ?es = "sort_key (\<lambda>e. timestamp (snd e)) c"
  have s: "set (clear_old c) = set (drop 500 ?es)"
    using clear_old_mset [OF assms(1,2)] by (metis set_mset_mset)
  have "x \<in> set (take 500 ?es @ drop 500 ?es)" using assms(3) by simp
  then have "x \<in> set (take 500 ?es) \<union> set (drop 500 ?es)" by (simp only: set_append)
  then have x: "x \<in> set (take 500 ?es)" using assms(4) s by blast
  have y: "y \<in> set (drop 500 ?es)" using assms(5) s by simp
  have "sorted (map (\<lambda>e. timestamp (snd e)) ?es)" by (rule sorted_sort_key)
  then show ?thesis using x y by (rule sorted_take_drop)
qed

lemma length_clear_old_distinct:
  assumes "distinct (map fst c)" "1000 < length c"
  shows "length (clear_old c) = length c - 500"
proof -
  have "length (clear_old c) = size (mset (clear_old c))" by simp
  also have "\<dots> = length (drop 500 (sort_key (\<lambda>e. timestamp (snd e)) c))"
    unfolding clear_old_mset [OF assms] by simp
  finally show ?thesis by simp
qed

lemma set_clear_old: "set (clear_old c) \<subseteq> set c"
  by (cases "1000 < length c") (auto simp: clear_old_filter clear_old_small)

lemma count_key_distinct:
  "distinct (map fst xs) \<Longrightarrow> length (filter (\<lambda>p. fst p = k) xs) \<le> 1"
proof (induction xs)
  case Nil
  then show ?case by simp
next
  case (Cons p xs)
  show ?case
  proof (cases "fst p = k")
    case True
    have "fst p \<notin> fst ` set xs" using Cons.prems by simp
    then have "\<forall>q\<in>set xs. fst q \<noteq> k" using True by (metis image_eqI)
    then have "filter (\<lambda>p. fst p = k) xs = []"
      by (simp add: filter_empty_conv)
    then show ?thesis using True by simp
  next
    case False
    then show ?thesis using Cons by simp
  qed
qed

lemma distinct_cache_store:
  "distinct (map fst c) \<Longrightarrow> distinct (map fst (cache_store k r t c))"
  unfolding cache_store_def by (intro distinct_clear_old distinct_Map_set)

lemma scanURL_cache_cases:
  "snd (scanURL u now1 now2 response c) = c
   \<or> (\<exists>r. snd (scanURL u now1 now2 response c) = cache_store (hashURL u) r now2 c)"
  by (auto simp: scanURL_def scanURL_try_def try_catch_def Let_def
      split: option.splits fetch_outcome.splits)

lemma length_scanURL:
  "length c \<le> 1000 \<Longrightarrow> length (snd (scanURL u now1 now2 response c)) \<le> 1000"
  using scanURL_cache_cases [of u now1 now2 response c] length_cache_store [of c]
  by auto

lemma length_scan_run:
  "length c \<le> 1000 \<Longrightarrow> length (scan_run reqs c) \<le> 1000"
proof (induction reqs arbitrary: c)
  case Nil
  then show ?case by simp
next
  case (Cons q reqs)
  obtain u now1 now2 response where q: "q = (u, now1, now2, response)"
    by (cases q) auto
  show ?case unfolding q scan_run.simps
    by (intro Cons.IH length_scanURL Cons.prems)
qed

subsection \<open>Eviction order\<close>

lemma demo_distinct: "n \<le> 1000 \<Longrightarrow> distinct (map fst (map demo_entry [0..<n]))"
proof -
  assume n: "n \<le> 1000"
  have "inj_on (\<lambda>i. hashURL (demo_url i)) (set [0..<n])"
    using n by (intro inj_onI demo_key_inj) simp_all
  then have "distinct (map (\<lambda>i. hashURL (demo_url i)) [0..<n])"
    by (simp add: distinct_map)
  moreover have "map fst (map demo_entry [0..<n]) = map (\<lambda>i. hashURL (demo_url i)) [0..<n]"
    by (simp add: demo_entry_def)
  ultimately show ?thesis by (simp only:)
qed

lemma demo_full:
  "distinct (map fst (demo_fill 1000))"
  "Map_size (demo_fill 1000) = 1000"
  "hashURL (demo_url 1000) \<notin> fst ` set (demo_fill 1000)"
  "cache_lookup (demo_fill 1000) (hashURL (demo_url 0)) 1000 = Some demo_result"
proof -
  have A: "demo_fill 1000 = map demo_entry [0..<1000]"
    by (rule demo_fill_eq) simp
  show "distinct (map fst (demo_fill 1000))"
    unfolding A by (rule demo_distinct) simp
  show "Map_size (demo_fill 1000) = 1000"
    unfolding A Map_size_def by simp
  show "hashURL (demo_url 1000) \<notin> fst ` set (demo_fill 1000)"
    unfolding A by (rule demo_key_fresh) simp_all
  show "cache_lookup (demo_fill 1000) (hashURL (demo_url 0)) 1000 = Some demo_result"
    unfolding A by (simp add: demo_lookup_first del: upt_rec_numeral)
qed

lemma filter_eq_append_split:
  "filter P xs = A @ B \<Longrightarrow> \<exists>xs1 xs2. xs = xs1 @ xs2 \<and> filter P xs1 = A \<and> filter P xs2 = B"
proof (induction xs arbitrary: A)
  case Nil
  then show ?case by simp
next
  case (Cons x xs)
  show ?case
  proof (cases "P x")
    case False
    then have "filter P xs = A @ B" using Cons.prems by simp
    from Cons.IH [OF this] obtain xs1 xs2 where
      s: "xs = xs1 @ xs2" "filter P xs1 = A" "filter P xs2 = B" by blast
    then have "x # xs = (x # xs1) @ xs2 \<and> filter P (x # xs1) = A \<and> filter P xs2 = B"
      using False by simp
    then show ?thesis by blast
  next
    case True
    then have e: "x # filter P xs = A @ B" using Cons.prems by simp
    show ?thesis
    proof (cases A)
      case Nil
      then have "x # xs = [] @ (x # xs) \<and> filter P [] = A \<and> filter P (x # xs) = B"
        using e True by simp
      then show ?thesis by blast
    next
      case (Cons a A')
      then have "filter P xs = A' @ B" "a = x" using e by simp_all
      from Cons.IH [OF this(1)] obtain xs1 xs2 where
        s: "xs = xs1 @ xs2" "filter P xs1 = A'" "filter P xs2 = B" by blast
      then have "x # xs = (x # xs1) @ xs2 \<and> filter P (x # xs1) = A \<and> filter P xs2 = B"
        using True Cons \<open>a = x\<close> by simp
      then show ?thesis by blast
    qed
  qed
qed

lemma stable_sort_order:
  assumes "x \<in> set (take n (sort_key f xs))" "y \<in> set (drop n (sort_key f xs))" "f x = f y"
  shows "\<exists>i j. i < j \<and> j < length xs \<and> xs ! i = x \<and> xs ! j = y"
proof -
  let ?es = "sort_key f xs"
  let ?P = "\<lambda>e. f e = f x"
  have "filter ?P xs = filter ?P ?es" by (rule sort_key_stable [symmetric])
  also have "\<dots> = filter ?P (take n ?es @ drop n ?es)" by simp
  finally have "filter ?P xs = filter ?P (take n ?es) @ filter ?P (drop n ?es)"
    by (simp only: filter_append)
  from filter_eq_append_split [OF this] obtain xs1 xs2 where
    s: "xs = xs1 @ xs2" "filter ?P xs1 = filter ?P (take n ?es)"
       "filter ?P xs2 = filter ?P (drop n ?es)" by blast
  have "x \<in> set (filter ?P (take n ?es))" using assms(1) by simp
  then have "x \<in> set (filter ?P xs1)" by (simp only: s(2))
  then have "x \<in> set xs1" by simp
  then obtain i where i: "i < length xs1" "xs1 ! i = x" by (auto simp: in_set_conv_nth)
  have "y \<in> set (filter ?P (drop n ?es))" using assms(2,3) by simp
  then have "y \<in> set (filter ?P xs2)" by (simp only: s(3))
  then have "y \<in> set xs2" by simp
  then obtain j where j: "j < length xs2" "xs2 ! j = y" by (auto simp: in_set_conv_nth)
  have "i < length xs1 + j" using i(1) by simp
  moreover have "length xs1 + j < length xs" using j(1) s(1) by simp
  moreover have "xs ! i = x" using i s(1) by (simp add: nth_append)
  moreover have "xs ! (length xs1 + j) = y" using j s(1) by simp
  ultimately show ?thesis by blast
qed

lemma clear_old_ties:
  assumes "distinct (map fst c)" "1000 < length c"
    and "x \<in> set c" "x \<notin> set (clear_old c)" "y \<in> set (clear_old c)"
    and "timestamp (snd x) = timestamp (snd y)"
  shows "\<exists>i j. i < j \<and> j < length c \<and> c ! i = x \<and> c ! j = y"
proof -
  let ?es = "sort_key (\<lambda>e. timestamp (snd e)) c"
  have s: "set (clear_old c) = set (drop 500 ?es)"
    using clear_old_mset [OF assms(1,2)] by (metis set_mset_mset)
  have "x \<in> set (take 500 ?es @ drop 500 ?es)" using assms(3) by simp
  then have "x \<in> set (take 500 ?es) \<union> set (drop 500 ?es)" by (simp only: set_append)
  then have x: "x \<in> set (take 500 ?es)" using assms(4) s by blast
  have y: "y \<in> set (drop 500 ?es)" using assms(5) s by simp
  show ?thesis using x y assms(6) by (rule stable_sort_order)
qed

text \<open>
  Claim C1, as amended. The map is bounded but it is not a least-recently-used cache.
  A hit returns the cached result and leaves the map as it was: neither the order nor a
  timestamp changes. When the store of a new key finds 1000 entries, the 1001 entries
  are sorted by timestamp, equal timestamps staying in insertion order, and the keys of
  the first 500 are deleted; 501 entries stay. So each evicted entry carries a
  timestamp no later than that of every entry that stays, and of two entries with
  the same timestamp the one evicted was inserted before the one that stays:
  eviction goes by the time of the store, whatever has been read since.
\<close>

theorem scanCache_evicts_by_store_time:
  assumes "distinct (map fst c)" and "Map_size c = 1000" and "k \<notin> fst ` set c"
  shows "(\<forall>u now1 now2 response res.
            cache_lookup c (hashURL u) now1 = Some res \<longrightarrow>
            scanURL u now1 now2 response c = (Inr res, c))
       \<and> Map_set k \<lparr>result = r, timestamp = now\<rparr> c = c @ [(k, \<lparr>result = r, timestamp = now\<rparr>)]
       \<and> cache_store k r now c
            = filter (\<lambda>p. fst p \<notin> fst ` set (take 500 (sort_key (\<lambda>e. timestamp (snd e))
                  (c @ [(k, \<lparr>result = r, timestamp = now\<rparr>)]))))
                (c @ [(k, \<lparr>result = r, timestamp = now\<rparr>)])
       \<and> Map_size (cache_store k r now c) = 501
       \<and> (\<forall>x \<in> set (c @ [(k, \<lparr>result = r, timestamp = now\<rparr>)]).
            \<forall>y \<in> set (cache_store k r now c).
              x \<notin> set (cache_store k r now c) \<longrightarrow>
                timestamp (snd x) \<le> timestamp (snd y)
                \<and> (timestamp (snd x) = timestamp (snd y) \<longrightarrow>
                     (\<exists>i j. i < j \<and> j < 1001
                        \<and> (c @ [(k, \<lparr>result = r, timestamp = now\<rparr>)]) ! i = x
                        \<and> (c @ [(k, \<lparr>result = r, timestamp = now\<rparr>)]) ! j = y)))"
proof -
  let ?e = "(k, \<lparr>result = r, timestamp = now\<rparr>)"
  let ?c = "c @ [?e]"
  have m: "Map_set k \<lparr>result = r, timestamp = now\<rparr> c = ?c"
    using assms(3) by (rule Map_set_fresh)
  have d: "distinct (map fst ?c)"
    using assms(1) distinct_Map_set [of c k "\<lparr>result = r, timestamp = now\<rparr>"]
    by (simp only: m)
  have l: "length ?c = 1001" using assms(2) by (simp add: Map_size_def)
  then have g: "1000 < length ?c" by simp
  have st: "cache_store k r now c = clear_old ?c"
    by (simp only: cache_store_def m)
  have 1: "cache_store k r now c
      = filter (\<lambda>p. fst p \<notin> fst ` set (take 500 (sort_key (\<lambda>e. timestamp (snd e)) ?c))) ?c"
    unfolding st by (rule clear_old_filter [OF g])
  have 2: "Map_size (cache_store k r now c) = 501"
    unfolding st Map_size_def length_clear_old_distinct [OF d g] l by simp
  have 3: "timestamp (snd x) \<le> timestamp (snd y)
      \<and> (timestamp (snd x) = timestamp (snd y) \<longrightarrow>
            (\<exists>i j. i < j \<and> j < 1001 \<and> ?c ! i = x \<and> ?c ! j = y))"
    if "x \<in> set ?c" "y \<in> set (cache_store k r now c)" "x \<notin> set (cache_store k r now c)"
    for x y
  proof
    show "timestamp (snd x) \<le> timestamp (snd y)"
      using that unfolding st by (intro clear_old_oldest [OF d g])
    show "timestamp (snd x) = timestamp (snd y) \<longrightarrow>
            (\<exists>i j. i < j \<and> j < 1001 \<and> ?c ! i = x \<and> ?c ! j = y)"
    proof
      assume "timestamp (snd x) = timestamp (snd y)"
      with that have "\<exists>i j. i < j \<and> j < length ?c \<and> ?c ! i = x \<and> ?c ! j = y"
        unfolding st by (intro clear_old_ties [OF d g])
      then show "\<exists>i j. i < j \<and> j < 1001 \<and> ?c ! i = x \<and> ?c ! j = y"
        by (simp only: l)
    qed
  qed
  have 0: "\<forall>u now1 now2 response res.
            cache_lookup c (hashURL u) now1 = Some res \<longrightarrow>
            scanURL u now1 now2 response c = (Inr res, c)"
    by (simp add: scanURL_hit)
  show ?thesis using 0 m 1 2 3 by blast
qed

theorem scanCache_evicts_by_store_time_witness:
  "distinct (map fst (demo_fill 1000)) \<and> Map_size (demo_fill 1000) = 1000
   \<and> hashURL (demo_url 1000) \<notin> fst ` set (demo_fill 1000)
   \<and> scanURL (demo_url 0) 1000 1000 FetchRejected (demo_fill 1000)
       = (Inr demo_result, demo_fill 1000)
   \<and> Map_size (cache_store (hashURL (demo_url 1000)) demo_result 1001 (demo_fill 1000)) = 501"
  using scanCache_evicts_by_store_time [OF demo_full(1,2,3), of demo_result 1001]
    demo_full by blast

text \<open>
  Claim C1 as stated fails. After 1000 scans the map holds 1000 entries. The first URL
  is then read, a hit, so it is the most recently used entry, and a new URL is stored.
  A least-recently-used cache would evict the second URL and nothing else. Here the
  first URL is gone, the new one is cached, and 501 entries are left.
\<close>

theorem scanCache_lru_counterexample:
  "Map_size (demo_fill 1000) = 1000
   \<and> scanURL (demo_url 0) 1000 1000 FetchRejected (demo_fill 1000)
       = (Inr demo_result, demo_fill 1000)
   \<and> cache_lookup demo_after (hashURL (demo_url 0)) 1002 = None
   \<and> cache_lookup demo_after (hashURL (demo_url 1000)) 1002 = Some demo_result
   \<and> Map_size demo_after = 501"
  using demo_full(2) scanURL_hit [OF demo_full(4)] demo_after_facts
  by (simp add: Map_size_def)

subsection \<open>Capacity and time to live\<close>

text \<open>
  Claim C2. The map never holds more than 1000 entries when an operation has completed:
  after any run of scans from the empty map, and after a scan, a store (eviction
  included) or a run from any map within the bound.
\<close>

theorem scanCache_size_le_1000:
  "Map_size (scan_run reqs []) \<le> 1000
   \<and> (Map_size c \<le> 1000 \<longrightarrow>
        Map_size (snd (scanURL u now1 now2 response c)) \<le> 1000
        \<and> Map_size (cache_store k r now c) \<le> 1000
        \<and> Map_size (scan_run reqs c) \<le> 1000)"
  unfolding Map_size_def
  using length_scan_run [of "[]" reqs] length_scan_run [of c reqs]
    length_scanURL [of c u now1 now2 response] length_cache_store [of c k r now]
  by simp

theorem scanCache_size_le_1000_witness:
  "Map_size (demo_fill 1000) \<le> 1000
   \<and> Map_size (snd (scanURL (demo_url 1000) 1001 1001 demo_response (demo_fill 1000))) \<le> 1000
   \<and> Map_size (cache_store (hashURL (demo_url 1000)) demo_result 1001 (demo_fill 1000)) \<le> 1000
   \<and> Map_size (scan_run [(demo_url 1000, 1001, 1001, demo_response)] (demo_fill 1000)) \<le> 1000"
proof -
  have h: "Map_size (demo_fill 1000) \<le> 1000" using demo_full(2) by simp
  show ?thesis
    using h scanCache_size_le_1000 [of "[(demo_url 1000, 1001, 1001, demo_response)]"
        "demo_fill 1000" "demo_url 1000" 1001 1001 demo_response
        "hashURL (demo_url 1000)" demo_result 1001]
    by blast
qed

lemma Map_get_Map_set: "Map_get (Map_set k e c) k = Some e"
  by (simp add: Map_get_def Map_set_def update_conv')

lemma cache_lookup_eq:
  "cache_lookup c k now =
     (case Map_get c k of
        None \<Rightarrow> None
      | Some e \<Rightarrow> if now - timestamp e < 300000 then Some (result e) else None)"
  by (simp add: cache_lookup_def Map_has_def Map_get_def split: option.splits)

lemma cache_store_small:
  "Map_size c < 1000 \<Longrightarrow> cache_store k r t c = Map_set k \<lparr>result = r, timestamp = t\<rparr> c"
  unfolding cache_store_def Map_size_def
  by (intro clear_old_small) (simp add: length_Map_set)

text \<open>
  Claim C3, as amended. The time to live is the constant 300000 ms of the code; a store
  takes none. A lookup returns the stored result exactly while \<open>now - timestamp\<close> is
  strictly less than 300000; once \<open>now \<ge> timestamp + 300000\<close> the entry is stale and
  the lookup finds nothing. So a result stored at \<open>t\<close> is found at \<open>now\<close> if and only
  if \<open>now - t < 300000\<close>.
\<close>

theorem scanCache_ttl_honoured:
  "(cache_lookup c k now = Some res \<longleftrightarrow>
      (\<exists>e. Map_get c k = Some e \<and> result e = res \<and> now - timestamp e < 300000))
   \<and> (\<forall>e. Map_get c k = Some e \<and> timestamp e + 300000 \<le> now \<longrightarrow>
          cache_lookup c k now = None)
   \<and> (Map_size c < 1000 \<longrightarrow>
          cache_lookup (cache_store k res t c) k now
            = (if now - t < 300000 then Some res else None))"
proof (intro conjI allI impI)
  show "cache_lookup c k now = Some res \<longleftrightarrow>
      (\<exists>e. Map_get c k = Some e \<and> result e = res \<and> now - timestamp e < 300000)"
    by (auto simp: cache_lookup_eq split: option.splits if_splits)
next
  fix e assume "Map_get c k = Some e \<and> timestamp e + 300000 \<le> now"
  then show "cache_lookup c k now = None"
    by (simp add: cache_lookup_eq)
next
  assume "Map_size c < 1000"
  then show "cache_lookup (cache_store k res t c) k now
      = (if now - t < 300000 then Some res else None)"
    by (simp add: cache_store_small cache_lookup_eq Map_get_Map_set)
qed

theorem scanCache_ttl_honoured_witness:
  "cache_lookup (cache_store (hashURL (demo_url 0)) demo_result 0 [])
      (hashURL (demo_url 0)) 299999 = Some demo_result
   \<and> cache_lookup (cache_store (hashURL (demo_url 0)) demo_result 0 [])
      (hashURL (demo_url 0)) 300000 = None
   \<and> cache_lookup [(hashURL (demo_url 0), \<lparr>result = demo_result, timestamp = 0\<rparr>)]
      (hashURL (demo_url 0)) 300000 = None"
proof -
  let ?k = "hashURL (demo_url 0)"
  let ?c = "[(?k, \<lparr>result = demo_result, timestamp = 0\<rparr>)]"
  have s: "Map_size [] < 1000" by (simp add: Map_size_def)
  have g: "Map_get ?c ?k = Some \<lparr>result = demo_result, timestamp = 0\<rparr>
    \<and> timestamp \<lparr>result = demo_result, timestamp = 0\<rparr> + 300000 \<le> 300000"
    by (simp add: Map_get_def)
  show ?thesis
    using scanCache_ttl_honoured [of "[]" ?k 299999 demo_result 0]
      scanCache_ttl_honoured [of "[]" ?k 300000 demo_result 0]
      scanCache_ttl_honoured [of ?c ?k 300000 demo_result 0]
      s g
    by simp
qed

text \<open>
  Claim C3 as stated fails in its example: no store can ask for a time to live of 5
  seconds, and a result read 6 seconds after it was stored is still found.
\<close>

theorem scanCache_ttl_5s_counterexample:
  "cache_lookup (cache_store (hashURL (demo_url 0)) demo_result 0 [])
     (hashURL (demo_url 0)) 6000 = Some demo_result"
proof -
  have "Map_size [] < 1000" by (simp add: Map_size_def)
  then show ?thesis
    by (simp add: cache_store_small cache_lookup_eq Map_get_Map_set)
qed

subsection \<open>Backend failure and repeated stores\<close>

lemma scanURL_failed:
  assumes "request_failed response" "cache_lookup c (hashURL u) now1 = None"
  shows "scanURL u now1 now2 response c = (Inr (safe_result u), c)"
  using assms by (cases response) (simp_all add: scanURL_def scanURL_try_def try_catch_def)

lemma scanUrl_failed:
  "request_failed response \<Longrightarrow> scanUrl u response = Inr safe_default"
  by (cases response) (simp_all add: scanUrl_def scanUrl_try_def)

lemma scanURL_returns: "\<exists>res. fst (scanURL u now1 now2 response c) = Inr res"
  by (auto simp: scanURL_def scanURL_try_def try_catch_def Let_def
      split: option.splits fetch_outcome.splits)

lemma scanUrl_returns: "\<exists>res. scanUrl u response = Inr res"
  by (auto simp: scanUrl_def split: sum.splits)

lemma scanURL_failed_cache:
  "request_failed response \<Longrightarrow> snd (scanURL u now1 now2 response c) = c"
  by (cases response)
    (auto simp: scanURL_def scanURL_try_def try_catch_def Let_def split: option.splits)

text \<open>
  Claim C4. Whatever the backend round trip gives, \<open>scanURL\<close> and \<open>scanUrl\<close> return
  normally, never with a rejected promise. When the request fails the map is left as
  it was, and a fresh cached result is served without the backend.
\<close>

theorem scan_survives_backend_failure:
  "(\<exists>res. fst (scanURL u now1 now2 response c) = Inr res)
   \<and> (\<exists>res. scanUrl u response = Inr res)
   \<and> (request_failed response \<longrightarrow> snd (scanURL u now1 now2 response c) = c)
   \<and> (\<forall>res. cache_lookup c (hashURL u) now1 = Some res \<longrightarrow>
          scanURL u now1 now2 response c = (Inr res, c))"
  using scanURL_returns [of u now1 now2 response c] scanUrl_returns [of u response]
    scanURL_failed_cache [of response u now1 now2 c]
  by (simp add: scanURL_hit)

theorem scan_survives_backend_failure_witness:
  "request_failed (FetchResponse False 503 None)
   \<and> (\<exists>res. fst (scanURL (demo_url 0) 1000 1000 (FetchResponse False 503 None)
                   (demo_fill 1000)) = Inr res)
   \<and> (\<exists>res. scanUrl (demo_url 0) (FetchResponse False 503 None) = Inr res)
   \<and> snd (scanURL (demo_url 0) 1000 1000 (FetchResponse False 503 None) (demo_fill 1000))
       = demo_fill 1000
   \<and> scanURL (demo_url 0) 1000 1000 (FetchResponse False 503 None) (demo_fill 1000)
       = (Inr demo_result, demo_fill 1000)"
  using scan_survives_backend_failure [of "demo_url 0" 1000 1000 "FetchResponse False 503 None"
      "demo_fill 1000"] demo_full(4)
  by simp

text \<open>
  Claim C5. When the backend request throws or answers with a status that is not ok,
  a scan that found nothing fresh in the cache returns the safe object: not phishing,
  confidence 0, threat level \<open>Unknown\<close>, no risk factors (\<open>scanURL\<close> adds the URL to
  it). On that result the navigation listeners neither open the warning page nor show
  a notification.
\<close>

theorem scan_fails_open:
  assumes "request_failed response"
  shows "(cache_lookup c (hashURL u) now1 = None \<longrightarrow>
            fst (scanURL u now1 now2 response c)
              = Inr \<lparr>url = Some u, is_phishing = False, confidence = 0,
                     threat_level = ''Unknown'', risk_factors = []\<rparr>
            \<and> (\<forall>res. fst (scanURL u now1 now2 response c) = Inr res \<longrightarrow>
                  onBeforeNavigate_action userSettings res = NoAction))
       \<and> scanUrl u response
            = Inr \<lparr>url = None, is_phishing = False, confidence = 0,
                   threat_level = ''Unknown'', risk_factors = []\<rparr>
       \<and> (\<forall>res. scanUrl u response = Inr res \<longrightarrow> onCommitted_action settings res = NoAction)"
  using scanURL_failed [OF assms, of c u now1 now2] scanUrl_failed [OF assms, of u]
  by (auto simp: safe_result_def safe_default_def onBeforeNavigate_action_def
      onCommitted_action_def)

theorem scan_fails_open_witness:
  "request_failed FetchRejected
   \<and> cache_lookup [] (hashURL ''http://a.test/'') 0 = None
   \<and> fst (scanURL ''http://a.test/'' 0 1 FetchRejected [])
       = Inr \<lparr>url = Some ''http://a.test/'', is_phishing = False, confidence = 0,
              threat_level = ''Unknown'', risk_factors = []\<rparr>
   \<and> onBeforeNavigate_action \<lparr>blockPhishing = True, showWarnings = True\<rparr>
        \<lparr>url = Some ''http://a.test/'', is_phishing = False, confidence = 0,
              threat_level = ''Unknown'', risk_factors = []\<rparr> = NoAction
   \<and> scanUrl ''http://a.test/'' FetchRejected
       = Inr \<lparr>url = None, is_phishing = False, confidence = 0,
              threat_level = ''Unknown'', risk_factors = []\<rparr>
   \<and> onCommitted_action \<lparr>blockPhishing = True, showWarnings = True\<rparr>
        \<lparr>url = None, is_phishing = False, confidence = 0,
              threat_level = ''Unknown'', risk_factors = []\<rparr> = NoAction"
proof -
  have h: "request_failed FetchRejected" by simp
  have l: "cache_lookup [] (hashURL ''http://a.test/'') 0 = None"
    by (simp add: cache_lookup_def Map_has_def)
  show ?thesis
    using h l scan_fails_open [OF h, of "[]" "''http://a.test/''" 0 1
        "\<lparr>blockPhishing = True, showWarnings = True\<rparr>"
        "\<lparr>blockPhishing = True, showWarnings = True\<rparr>"]
    by simp
qed

lemma Map_has_iff: "Map_has c k \<longleftrightarrow> k \<in> fst ` set c"
  by (simp add: Map_has_def map_of_eq_None_iff)

text \<open>
  Claim C6. Storing under a key replaces the entry of that key: keys stay unique, so
  the map holds at most one entry for \<open>k\<close> after any two stores; storing under a
  present key leaves the size as it is and the new value in place; and a store
  repeated after a first one (below the bound) does not grow the map.
\<close>

theorem set_same_key_keeps_one_entry:
  assumes "distinct (map fst c)"
  shows "distinct (map fst (cache_store k r t c))
       \<and> length (filter (\<lambda>p. fst p = k) (cache_store k r t' (cache_store k r t c))) \<le> 1
       \<and> Map_size (Map_set k e (Map_set k e c)) = Map_size (Map_set k e c)
       \<and> (Map_size c \<le> 1000 \<and> Map_has c k \<longrightarrow>
            Map_size (cache_store k r t c) = Map_size c
            \<and> Map_get (cache_store k r t c) k = Some \<lparr>result = r, timestamp = t\<rparr>)
       \<and> (Map_size c < 1000 \<longrightarrow>
            Map_has (cache_store k r t c) k
            \<and> Map_size (cache_store k r t' (cache_store k r t c)) = Map_size (cache_store k r t c))"
proof (intro conjI impI)
  show d: "distinct (map fst (cache_store k r t c))"
    using assms by (rule distinct_cache_store)
  show "length (filter (\<lambda>p. fst p = k) (cache_store k r t' (cache_store k r t c))) \<le> 1"
    by (intro count_key_distinct distinct_cache_store d)
  show "Map_size (Map_set k e (Map_set k e c)) = Map_size (Map_set k e c)"
    by (simp add: Map_set_def)
next
  assume a: "Map_size c \<le> 1000 \<and> Map_has c k"
  then have m: "length (Map_set k \<lparr>result = r, timestamp = t\<rparr> c) = length c"
    by (simp add: length_Map_set Map_has_iff)
  then have s: "cache_store k r t c = Map_set k \<lparr>result = r, timestamp = t\<rparr> c"
    unfolding cache_store_def using a by (intro clear_old_small) (simp add: Map_size_def)
  show "Map_size (cache_store k r t c) = Map_size c"
    unfolding s Map_size_def by (rule m)
  show "Map_get (cache_store k r t c) k = Some \<lparr>result = r, timestamp = t\<rparr>"
    unfolding s by (rule Map_get_Map_set)
next
  assume a: "Map_size c < 1000"
  have s: "cache_store k r t c = Map_set k \<lparr>result = r, timestamp = t\<rparr> c"
    using a by (rule cache_store_small)
  show h: "Map_has (cache_store k r t c) k"
    unfolding s using Map_get_Map_set [of k _ c] by (simp add: Map_has_def Map_get_def)
  have l: "length (cache_store k r t c) \<le> 1000"
    using a by (intro length_cache_store) (simp add: Map_size_def)
  have "length (Map_set k \<lparr>result = r, timestamp = t'\<rparr> (cache_store k r t c))
      = length (cache_store k r t c)"
    using h by (simp add: length_Map_set Map_has_iff)
  then show "Map_size (cache_store k r t' (cache_store k r t c)) = Map_size (cache_store k r t c)"
    unfolding Map_size_def cache_store_def [of k r t'] using l
    by (simp add: clear_old_small)
qed

theorem set_same_key_keeps_one_entry_witness:
  "distinct (map fst ([] :: scan_cache))
   \<and> Map_size ([] :: scan_cache) < 1000
   \<and> Map_size (cache_store (hashURL (demo_url 0)) demo_result 5
         (cache_store (hashURL (demo_url 0)) demo_result 0 []))
       = Map_size (cache_store (hashURL (demo_url 0)) demo_result 0 [])
   \<and> length (filter (\<lambda>p. fst p = hashURL (demo_url 0))
         (cache_store (hashURL (demo_url 0)) demo_result 5
           (cache_store (hashURL (demo_url 0)) demo_result 0 []))) \<le> 1"
proof -
  have d: "distinct (map fst ([] :: scan_cache))" by simp
  have s: "Map_size ([] :: scan_cache) < 1000" by (simp add: Map_size_def)
  show ?thesis
    using d s set_same_key_keeps_one_entry [OF d, of "hashURL (demo_url 0)" demo_result 0 5]
    by blast
qed

section \<open>Properties of the service worker's bookkeeping\<close>

lemma newest_first_Cons_take:
  assumes "newest_first ts xs" "\<forall>x\<in>set xs. ts x \<le> ts a"
  shows "newest_first ts (a # take n xs)"
proof -
  have "sorted_wrt (\<lambda>a b. ts b \<le> ts a) (take n xs)"
    using assms(1) unfolding newest_first_def by (rule sorted_wrt_take)
  moreover have "\<forall>x\<in>set (take n xs). ts x \<le> ts a"
    using assms(2) by (meson in_set_takeD)
  ultimately show ?thesis by (simp add: newest_first_def)
qed

text \<open>
  Claim C9. The three places that record a scan (the \<open>onCommitted\<close> listener, the popup's
  \<open>handleScan\<close> and the dashboard's \<open>addToRecentScans\<close>) all put the new record first
  and keep the first nine of the old ones: the list has at most 10 entries. It is
  ordered newest first whenever the old list was and no old timestamp is later than
  the new one.
\<close>

theorem recentScans_newest_first_at_most_10:
  "onCommitted_recentScans u res now stored
      = newScan u res now # take 9 (case stored of None \<Rightarrow> [] | Some l \<Rightarrow> l)
   \<and> handleScan_recentScans u res now recentScans = newScan u res now # take 9 recentScans
   \<and> addToRecentScans res now dashScans = (res, now) # take 9 dashScans
   \<and> length (onCommitted_recentScans u res now stored) \<le> 10
   \<and> length (handleScan_recentScans u res now recentScans) \<le> 10
   \<and> length (addToRecentScans res now dashScans) \<le> 10
   \<and> (newest_first scan_timestamp recentScans
        \<and> (\<forall>x\<in>set recentScans. scan_timestamp x \<le> now) \<longrightarrow>
          newest_first scan_timestamp (onCommitted_recentScans u res now (Some recentScans))
          \<and> newest_first scan_timestamp (handleScan_recentScans u res now recentScans))
   \<and> (newest_first snd dashScans \<and> (\<forall>x\<in>set dashScans. snd x \<le> now) \<longrightarrow>
          newest_first snd (addToRecentScans res now dashScans))"
proof -
  have a: "onCommitted_recentScans u res now st
      = newScan u res now # take 9 (case st of None \<Rightarrow> [] | Some l \<Rightarrow> l)" for st
    by (simp add: onCommitted_recentScans_def)
  have b: "handleScan_recentScans u res now recentScans = newScan u res now # take 9 recentScans"
    by (simp add: handleScan_recentScans_def)
  have c: "addToRecentScans res now dashScans = (res, now) # take 9 dashScans"
    by (simp add: addToRecentScans_def Let_def)
  have t: "scan_timestamp (newScan u res now) = now" by (simp add: newScan_def)
  have d: "newest_first scan_timestamp (newScan u res now # take 9 recentScans)"
    if "newest_first scan_timestamp recentScans \<and> (\<forall>x\<in>set recentScans. scan_timestamp x \<le> now)"
    using that by (intro newest_first_Cons_take) (simp_all add: t)
  have e: "newest_first snd ((res, now) # take 9 dashScans)"
    if "newest_first snd dashScans \<and> (\<forall>x\<in>set dashScans. snd x \<le> now)"
    using that by (intro newest_first_Cons_take) simp_all
  show ?thesis
    unfolding a b c using d e by simp
qed

theorem recentScans_newest_first_at_most_10_witness:
  "newest_first scan_timestamp
     [newScan ''http://a.test/'' demo_result 20, newScan ''http://a.test/'' demo_result 10]
   \<and> newest_first scan_timestamp
        (onCommitted_recentScans ''http://b.test/'' demo_result 21
          (Some [newScan ''http://a.test/'' demo_result 20,
                 newScan ''http://a.test/'' demo_result 10]))
   \<and> newest_first scan_timestamp
        (handleScan_recentScans ''http://b.test/'' demo_result 21
          [newScan ''http://a.test/'' demo_result 20,
           newScan ''http://a.test/'' demo_result 10])
   \<and> newest_first snd [(demo_result, 20)]
   \<and> newest_first snd (addToRecentScans demo_result 21 [(demo_result, 20)])
   \<and> length (addToRecentScans demo_result 21 [(demo_result, 20)]) \<le> 10"
proof -
  let ?rs = "[newScan ''http://a.test/'' demo_result 20,
              newScan ''http://a.test/'' demo_result 10]"
  have h1: "newest_first scan_timestamp ?rs \<and> (\<forall>x\<in>set ?rs. scan_timestamp x \<le> 21)"
    by (simp add: newest_first_def newScan_def)
  have h2: "newest_first snd [(demo_result, 20 :: int)]
      \<and> (\<forall>x\<in>set [(demo_result, 20 :: int)]. snd x \<le> 21)"
    by (simp add: newest_first_def)
  show ?thesis
    using h1 h2 recentScans_newest_first_at_most_10 [of "''http://b.test/''" demo_result 21
        "Some ?rs" ?rs "[(demo_result, 20)]"]
    by blast
qed

lemma js_increment_exact: "\<bar>x\<bar> < 9007199254740992 \<Longrightarrow> js_increment x = x + 1"
proof -
  assume "\<bar>x\<bar> < 9007199254740992"
  then have "nat \<bar>x + 1\<bar> \<le> 9007199254740992" by linarith
  then show ?thesis by (simp add: js_increment_def toDouble_def Let_def)
qed

lemma js_increment_zero: "js_increment 0 = 1"
  using js_increment_exact [of 0] by simp

lemma bit_length_eq: "2 ^ n \<le> a \<Longrightarrow> a < 2 ^ Suc n \<Longrightarrow> bit_length a = Suc n"
proof (induction n arbitrary: a)
  case 0
  then have "a = 1" by simp
  then show ?case by (simp add: bit_length.simps)
next
  case (Suc n)
  have "2 ^ n \<le> a div 2" using Suc.prems(1) by simp
  moreover have "a div 2 < 2 ^ Suc n" using Suc.prems(2) by simp
  ultimately have "bit_length (a div 2) = Suc n" by (rule Suc.IH)
  moreover have "(0 :: nat) < 2 ^ Suc n" by simp
  then have "a \<noteq> 0" using Suc.prems(1) by linarith
  ultimately show ?case by (subst bit_length.simps) simp
qed

lemma js_increment_2_53: "js_increment 9007199254740992 = 9007199254740992"
proof -
  have "bit_length 9007199254740993 = Suc 53"
    by (rule bit_length_eq) simp_all
  then show ?thesis
    by (simp add: js_increment_def toDouble_def Let_def)
qed

text \<open>
  Claim C10, as amended. After \<open>updateStats\<close>, \<open>scansToday\<close> is 1 if the stored
  \<open>lastScan\<close> is missing or falls on another local calendar day than today, and the
  previous value incremented otherwise; \<open>threatsBlocked\<close> is incremented if the result
  is phishing and unchanged otherwise; \<open>lastScan\<close> is the current timestamp. The
  increment is that of a JavaScript number: exactly 1 more while the counter is below
  \<open>2^53\<close> in magnitude, so that \<open>threatsBlocked\<close> does not decrease, and no change at
  \<open>2^53\<close>. With nothing stored the counts start from 0.
\<close>

theorem updateStats_bookkeeping:
  "scansToday (updateStats tz now1 now2 res (Some s))
      = (if (case lastScan s of
               None \<Rightarrow> True
             | Some t \<Rightarrow> toDateString tz t \<noteq> toDateString tz now1)
         then 1 else js_increment (scansToday s))
   \<and> (\<bar>scansToday s\<bar> < 9007199254740992 \<longrightarrow> js_increment (scansToday s) = scansToday s + 1)
   \<and> threatsBlocked (updateStats tz now1 now2 res (Some s))
      = (if is_phishing res then js_increment (threatsBlocked s) else threatsBlocked s)
   \<and> (\<bar>threatsBlocked s\<bar> < 9007199254740992 \<longrightarrow>
        js_increment (threatsBlocked s) = threatsBlocked s + 1
        \<and> threatsBlocked s \<le> threatsBlocked (updateStats tz now1 now2 res (Some s)))
   \<and> js_increment 9007199254740992 = 9007199254740992
   \<and> lastScan (updateStats tz now1 now2 res stored) = Some now2
   \<and> updateStats tz now1 now2 res None
      = \<lparr>scansToday = 1, threatsBlocked = (if is_phishing res then 1 else 0),
         lastScan = Some now2\<rparr>"
proof -
  have a: "scansToday (updateStats tz now1 now2 res (Some s))
      = (if (case lastScan s of
               None \<Rightarrow> True
             | Some t \<Rightarrow> toDateString tz t \<noteq> toDateString tz now1)
         then 1 else js_increment (scansToday s))"
    by (cases "lastScan s") (simp_all add: updateStats_def Let_def js_increment_zero)
  have b: "threatsBlocked (updateStats tz now1 now2 res (Some s))
      = (if is_phishing res then js_increment (threatsBlocked s) else threatsBlocked s)"
    by (simp add: updateStats_def Let_def)
  have c: "lastScan (updateStats tz now1 now2 res stored) = Some now2"
    by (simp add: updateStats_def Let_def)
  have d: "updateStats tz now1 now2 res None
      = \<lparr>scansToday = 1, threatsBlocked = (if is_phishing res then 1 else 0),
         lastScan = Some now2\<rparr>"
    by (simp add: updateStats_def Let_def js_increment_zero)
  have e: "threatsBlocked s \<le> threatsBlocked (updateStats tz now1 now2 res (Some s))"
    if "\<bar>threatsBlocked s\<bar> < 9007199254740992"
    unfolding b using js_increment_exact [OF that] by simp
  show ?thesis
    using a b c d e js_increment_2_53 js_increment_exact by blast
qed

theorem updateStats_bookkeeping_witness:
  "\<bar>7 :: int\<bar> < 9007199254740992
   \<and> scansToday (updateStats utc_zone 1000 2000
        \<lparr>url = None, is_phishing = True, confidence = 1, threat_level = ''High'',
         risk_factors = []\<rparr>
        (Some \<lparr>scansToday = 7, threatsBlocked = 2, lastScan = Some 0\<rparr>)) = 8
   \<and> threatsBlocked (updateStats utc_zone 1000 2000
        \<lparr>url = None, is_phishing = True, confidence = 1, threat_level = ''High'',
         risk_factors = []\<rparr>
        (Some \<lparr>scansToday = 7, threatsBlocked = 2, lastScan = Some 0\<rparr>)) = 3
   \<and> scansToday (updateStats utc_zone 86400000 86400000 demo_result
        (Some \<lparr>scansToday = 7, threatsBlocked = 2, lastScan = Some 0\<rparr>)) = 1"
proof -
  let ?r = "\<lparr>url = None, is_phishing = True, confidence = 1, threat_level = ''High'',
         risk_factors = []\<rparr>"
  let ?s = "\<lparr>scansToday = 7, threatsBlocked = 2, lastScan = Some 0\<rparr>"
  have h: "\<bar>7 :: int\<bar> < 9007199254740992" "\<bar>2 :: int\<bar> < 9007199254740992" by simp_all
  have d: "toDateString utc_zone 0 = toDateString utc_zone 1000"
    "toDateString utc_zone 0 \<noteq> toDateString utc_zone 86400000"
    by (simp_all add: toDateString_def utc_zone_def)
  show ?thesis
    using h d updateStats_bookkeeping [of utc_zone 1000 2000 ?r ?s]
      updateStats_bookkeeping [of utc_zone 86400000 86400000 demo_result ?s]
    by simp
qed

text \<open>
  Claim C10 as stated fails. Stats stored without \<open>lastScan\<close>, as the popup writes
  them, count as another day: \<open>scansToday\<close> goes from 7 to 1, not to 8. And a counter
  at \<open>2^53\<close> is not increased by a phishing result.
\<close>

theorem updateStats_counterexample:
  "scansToday (updateStats utc_zone 1000 2000 demo_result
      (Some \<lparr>scansToday = 7, threatsBlocked = 2, lastScan = None\<rparr>)) = 1
   \<and> threatsBlocked (updateStats utc_zone 1000 2000
        \<lparr>url = None, is_phishing = True, confidence = 1, threat_level = ''High'',
         risk_factors = []\<rparr>
        (Some \<lparr>scansToday = 7, threatsBlocked = 9007199254740992, lastScan = Some 0\<rparr>))
      = 9007199254740992"
  by (simp add: updateStats_def Let_def js_increment_zero js_increment_2_53)

section \<open>Properties of the modelled pool and batch processor\<close>

lemma add_cases:
  "add r bp = (if sizeThreshold bp \<le> Suc (length (items bp))
               then bp\<lparr>items := [], flushed := flushed bp @ [items bp @ [r]]\<rparr>
               else bp\<lparr>items := items bp @ [r]\<rparr>)"
  by (simp add: add_def flush_def Let_def)

lemma sizeThreshold_add_all: "sizeThreshold (add_all rs bp) = sizeThreshold bp"
  by (induction rs arbitrary: bp) (simp_all add: add_cases)

lemma add_all_conserves:
  "concat (flushed (add_all rs bp)) @ items (add_all rs bp)
     = concat (flushed bp) @ items bp @ rs"
  by (induction rs arbitrary: bp) (simp_all add: add_cases)

lemma div_step: "0 < n \<Longrightarrow> Suc k = n \<Longrightarrow> Suc (k + m) div n = Suc (m div n)"
proof -
  assume n: "0 < n" and k: "Suc k = n"
  have e: "Suc (k + m) = n + m" using k by simp
  have "(n + m) div n = Suc (m div n)" using n by simp
  then show ?thesis unfolding e .
qed

lemma mod_step: "Suc k = n \<Longrightarrow> Suc (k + m) mod n = m mod n"
proof -
  assume k: "Suc k = n"
  have e: "Suc (k + m) = n + m" using k by simp
  have "(n + m) mod n = m mod n" by simp
  then show ?thesis unfolding e .
qed

lemma add_all_counts:
  assumes "0 < sizeThreshold bp" "length (items bp) < sizeThreshold bp"
  shows "length (flushed (add_all rs bp))
           = length (flushed bp) + (length (items bp) + length rs) div sizeThreshold bp
       \<and> length (items (add_all rs bp)) = (length (items bp) + length rs) mod sizeThreshold bp"
  using assms
proof (induction rs arbitrary: bp)
  case Nil
  then show ?case by simp
next
  case (Cons r rs)
  let ?n = "sizeThreshold bp"
  show ?case
  proof (cases "?n \<le> Suc (length (items bp))")
    case True
    then have full: "Suc (length (items bp)) = ?n" using Cons.prems by simp
    let ?bp = "bp\<lparr>items := [], flushed := flushed bp @ [items bp @ [r]]\<rparr>"
    have a: "add r bp = ?bp" using True by (simp add: add_cases)
    have "0 < sizeThreshold ?bp" "length (items ?bp) < sizeThreshold ?bp"
      using Cons.prems by simp_all
    from Cons.IH [OF this]
    show ?thesis
      unfolding add_all.simps a
      by (simp add: div_step [OF Cons.prems(1) full] mod_step [OF full])
  next
    case False
    let ?bp = "bp\<lparr>items := items bp @ [r]\<rparr>"
    have a: "add r bp = ?bp" using False by (simp add: add_cases)
    have "0 < sizeThreshold ?bp" "length (items ?bp) < sizeThreshold ?bp"
      using Cons.prems False by simp_all
    from Cons.IH [OF this]
    show ?thesis
      unfolding add_all.simps a by simp
  qed
qed

lemma add_all_batches:
  assumes "length (items bp) < sizeThreshold bp"
  shows "\<exists>bs. flushed (add_all rs bp) = flushed bp @ bs
           \<and> (\<forall>b \<in> set bs. length b = sizeThreshold bp)"
  using assms
proof (induction rs arbitrary: bp)
  case Nil
  then show ?case by simp
next
  case (Cons r rs)
  let ?n = "sizeThreshold bp"
  show ?case
  proof (cases "?n \<le> Suc (length (items bp))")
    case True
    then have full: "Suc (length (items bp)) = ?n" using Cons.prems by simp
    let ?bp = "bp\<lparr>items := [], flushed := flushed bp @ [items bp @ [r]]\<rparr>"
    have a: "add r bp = ?bp" using True by (simp add: add_cases)
    have "length (items ?bp) < sizeThreshold ?bp" using Cons.prems by simp
    from Cons.IH [OF this] obtain bs where
      bs: "flushed (add_all rs ?bp) = flushed ?bp @ bs" "\<forall>b \<in> set bs. length b = ?n"
      by auto
    have "flushed (add_all (r # rs) bp) = flushed bp @ ((items bp @ [r]) # bs)"
      unfolding add_all.simps a bs(1) by simp
    moreover have "\<forall>b \<in> set ((items bp @ [r]) # bs). length b = ?n"
      using bs(2) full by simp
    ultimately show ?thesis by blast
  next
    case False
    let ?bp = "bp\<lparr>items := items bp @ [r]\<rparr>"
    have a: "add r bp = ?bp" using False by (simp add: add_cases)
    have "length (items ?bp) < sizeThreshold ?bp" using False by simp
    from Cons.IH [OF this]
    show ?thesis unfolding add_all.simps a by simp
  qed
qed

lemma two_batches:
  assumes "length fl = 2" "\<forall>b \<in> set fl. length b = n" "concat fl @ it = rs"
  shows "fl = [take n rs, take n (drop n rs)] \<and> it = drop (2 * n) rs"
proof -
  from assms(1) obtain b1 b2 where fl: "fl = [b1, b2]"
    by (auto simp: length_Suc_conv numeral_2_eq_2)
  have l: "length b1 = n" "length b2 = n" using assms(2) fl by simp_all
  have rs: "rs = b1 @ b2 @ it" using assms(3) fl by simp
  have "take n rs = b1" unfolding rs using l by simp
  moreover have "drop n rs = b2 @ it" unfolding rs using l by simp
  moreover have "take n (b2 @ it) = b2" using l by simp
  moreover have "drop (2 * n) rs = it" unfolding rs using l by simp
  ultimately show ?thesis using fl by simp
qed

text \<open>
  Claim C8. \<open>add\<close> appends the record and flushes exactly when the buffer's size reaches
  the threshold. Over any sequence of adds to a new processor, the flushed buffers
  followed by the pending one are the added records, each once and in order; every
  flushed buffer has the threshold's size. With threshold 100, 250 records give two
  flushes, of the first and of the second hundred, and the last 50 stay pending.
\<close>

theorem batch_auto_flush_at_threshold:
  assumes "0 < n"
  shows "add (r :: 'a) bp =
           (if sizeThreshold bp \<le> Suc (length (items bp))
            then bp\<lparr>items := [], flushed := flushed bp @ [items bp @ [r]]\<rparr>
            else bp\<lparr>items := items bp @ [r]\<rparr>)
       \<and> concat (flushed (add_all rs (new_batch_processor n)))
            @ items (add_all rs (new_batch_processor n)) = (rs :: 'a list)
       \<and> length (flushed (add_all rs (new_batch_processor n))) = length rs div n
       \<and> (\<forall>b \<in> set (flushed (add_all rs (new_batch_processor n))). length b = n)
       \<and> length (items (add_all rs (new_batch_processor n))) = length rs mod n
       \<and> (n = 100 \<and> length rs = 250 \<longrightarrow>
            flushed (add_all rs (new_batch_processor n)) = [take 100 rs, take 100 (drop 100 rs)]
            \<and> items (add_all rs (new_batch_processor n)) = drop 200 rs
            \<and> length (items (add_all rs (new_batch_processor n))) = 50)"
proof -
  let ?bp = "new_batch_processor n :: 'a batch_processor"
  let ?out = "add_all rs ?bp"
  have p: "0 < sizeThreshold ?bp" "length (items ?bp) < sizeThreshold ?bp"
    using assms by (simp_all add: new_batch_processor_def)
  have c: "concat (flushed ?out) @ items ?out = rs"
    using add_all_conserves [of rs ?bp] by (simp add: new_batch_processor_def)
  have k: "length (flushed ?out) = length rs div n" "length (items ?out) = length rs mod n"
    using add_all_counts [OF p, of rs] by (simp_all add: new_batch_processor_def)
  have b: "\<forall>b \<in> set (flushed ?out). length b = n"
    using add_all_batches [OF p(2), of rs] by (auto simp: new_batch_processor_def)
  have e: "flushed ?out = [take 100 rs, take 100 (drop 100 rs)] \<and> items ?out = drop 200 rs
      \<and> length (items ?out) = 50"
    if h: "n = 100 \<and> length rs = 250"
  proof -
    have "length (flushed ?out) = 2" using k(1) h by simp
    from two_batches [OF this b c] show ?thesis using k(2) h by simp
  qed
  show ?thesis using c k b e by (simp add: add_cases)
qed

theorem batch_auto_flush_at_threshold_witness:
  "(0 :: nat) < 100 \<and> length [0..<250] = 250
   \<and> length (flushed (add_all [0..<250] (new_batch_processor 100))) = 2
   \<and> flushed (add_all [0..<250] (new_batch_processor 100))
       = [take 100 [0..<250], take 100 (drop 100 [0..<250])]
   \<and> items (add_all [0..<250] (new_batch_processor 100)) = drop 200 [0..<250]
   \<and> length (items (add_all [0..<250] (new_batch_processor 100))) = 50"
proof -
  have h: "(0 :: nat) < 100" by simp
  have l: "(100 :: nat) = 100 \<and> length [0..<250] = 250" by simp
  note t = batch_auto_flush_at_threshold [OF h, of 0 "new_batch_processor 100" "[0..<250]"]
  from t l have a: "flushed (add_all [0..<250] (new_batch_processor 100))
       = [take 100 [0..<250], take 100 (drop 100 [0..<250])]
     \<and> items (add_all [0..<250] (new_batch_processor 100)) = drop 200 [0..<250]
     \<and> length (items (add_all [0..<250] (new_batch_processor 100))) = 50"
    by blast
  then have "length (flushed (add_all [0..<250] (new_batch_processor 100))) = 2"
    by (simp only: list.size)
  with a h l show ?thesis by blast
qed

text \<open>
  Claim C7. \<open>acquire\<close> reports \<open>PoolExhausted\<close> exactly when nothing is available at once
  and no release comes before the timeout; it then returns when the timeout has
  elapsed, once, and leaves the pool as it found it. With 2 core connections and 1
  overflow connection, three acquires with no release in between all get a connection,
  and a fourth with a timeout of 2000 ms is exhausted after 2000 ms.
\<close>

theorem pool_exhausted_after_timeout:
  "(fst (fst (acquire timeout next_release p)) = PoolExhausted \<longleftrightarrow>
      try_acquire p = None \<and> (\<forall>d. next_release = Some d \<longrightarrow> timeout \<le> d))
   \<and> (fst (fst (acquire timeout next_release p)) = PoolExhausted \<longrightarrow>
        snd (fst (acquire timeout next_release p)) = timeout
        \<and> snd (acquire timeout next_release p) = p)
   \<and> (let (r1, p1) = acquire t1 None (new_pool 2 1);
            (r2, p2) = acquire t2 None p1;
            (r3, p3) = acquire t3 None p2
        in fst r1 = Connection \<and> fst r2 = Connection \<and> fst r3 = Connection
           \<and> checkedOut p3 = 3
           \<and> acquire 2000 None p3 = ((PoolExhausted, 2000), p3))"
proof (intro conjI)
  show "fst (fst (acquire timeout next_release p)) = PoolExhausted \<longleftrightarrow>
      try_acquire p = None \<and> (\<forall>d. next_release = Some d \<longrightarrow> timeout \<le> d)"
    by (auto simp: acquire_def split: option.splits)
  show "fst (fst (acquire timeout next_release p)) = PoolExhausted \<longrightarrow>
        snd (fst (acquire timeout next_release p)) = timeout
        \<and> snd (acquire timeout next_release p) = p"
    by (auto simp: acquire_def split: option.splits if_splits)
  show "let (r1, p1) = acquire t1 None (new_pool 2 1);
            (r2, p2) = acquire t2 None p1;
            (r3, p3) = acquire t3 None p2
        in fst r1 = Connection \<and> fst r2 = Connection \<and> fst r3 = Connection
           \<and> checkedOut p3 = 3
           \<and> acquire 2000 None p3 = ((PoolExhausted, 2000), p3)"
    by (simp add: acquire_def try_acquire_def new_pool_def)
qed

theorem pool_exhausted_after_timeout_witness:
  "try_acquire \<lparr>coreConnections = 2, overflowConnections = 1, created = 2, idle = 0,
                overflow = 1, checkedOut = 3\<rparr> = None
   \<and> acquire 2000 None \<lparr>coreConnections = 2, overflowConnections = 1, created = 2, idle = 0,
                overflow = 1, checkedOut = 3\<rparr>
      = ((PoolExhausted, 2000), \<lparr>coreConnections = 2, overflowConnections = 1, created = 2,
                idle = 0, overflow = 1, checkedOut = 3\<rparr>)"
proof -
  let ?p = "\<lparr>coreConnections = 2, overflowConnections = 1, created = 2, idle = 0,
                overflow = 1, checkedOut = 3\<rparr>"
  have t: "try_acquire ?p = None" by (simp add: try_acquire_def)
  then have "try_acquire ?p = None \<and> (\<forall>d. (None :: nat option) = Some d \<longrightarrow> 2000 \<le> d)"
    by simp
  with pool_exhausted_after_timeout [of 2000 None ?p]
  have "fst (fst (acquire 2000 None ?p)) = PoolExhausted
      \<and> snd (fst (acquire 2000 None ?p)) = 2000 \<and> snd (acquire 2000 None ?p) = ?p"
    by blast
  then show ?thesis using t by (metis prod.collapse)
qed

end
